theory Spec2Isabelle
  imports Main
begin

section \<open>The square-root-chunked deque (deque_accepted_sqrt_vector_without_cache.hpp)\<close>

text \<open>
  The container \<^verbatim>\<open>sjtu::deque<T>\<close> keeps a field \<^verbatim>\<open>_size\<close> and a chunk table
  \<^verbatim>\<open>Vector<Vector<T>> x\<close>.  A \<^verbatim>\<open>Vector<U>\<close> is modelled by its live prefix
  \<^verbatim>\<open>buffer[0 .. _size)\<close>, a list; its \<^verbatim>\<open>_size\<close> is the length of that list.  The
  capacity bookkeeping (\<^verbatim>\<open>expand_to\<close>, \<^verbatim>\<open>expand_if_full\<close>, \<^verbatim>\<open>shrink_if_small\<close>,
  \<^verbatim>\<open>fit\<close>) reallocates raw storage and copies the live prefix unchanged, so it leaves no
  trace in the model.

  C++ \<^verbatim>\<open>int\<close> values are modelled by \<^typ>\<open>int\<close>; the two products computed by
  \<^verbatim>\<open>should_split\<close> and \<^verbatim>\<open>should_merge\<close>, which leave the 32-bit range for chunk
  lengths of a few thousand, are wrapped to 32 bits (two's complement) as the usual targets
  compute them.  Chunk indices, which the code keeps in \<^verbatim>\<open>int\<close> variables, are naturals;
  where the code would read the chunk table or a chunk outside its live prefix, the model
  returns \<open>undefined_behaviour\<close>.
\<close>

subsection \<open>Errors\<close>

datatype error = index_out_of_bound | container_is_empty | invalid_iterator
  | undefined_behaviour

subsection \<open>Vector\<close>

definition Vector_insert :: "nat \<Rightarrow> 'u \<Rightarrow> 'u list \<Rightarrow> 'u list" where
  "Vector_insert pos v buffer = take pos buffer @ v # drop pos buffer"

definition Vector_erase :: "nat \<Rightarrow> 'u list \<Rightarrow> 'u list" where
  "Vector_erase pos buffer = take pos buffer @ drop (Suc pos) buffer"

subsection \<open>The container\<close>

record 'a deque =
  d_size :: int
  d_x :: "'a list list"

definition INSERT_GC_THRESHOLD :: int where
  "INSERT_GC_THRESHOLD = 10000"

definition REMOVE_GC_THRESHOLD :: int where
  "REMOVE_GC_THRESHOLD = 10000"

text \<open>\<^verbatim>\<open>init()\<close>: \<^verbatim>\<open>_size = 0; x.insert(0, Vector<T>())\<close>.\<close>

definition init :: "'a deque \<Rightarrow> 'a deque" where
  "init s = s\<lparr>d_size := 0, d_x := Vector_insert 0 [] (d_x s)\<rparr>"

text \<open>The constructor \<^verbatim>\<open>deque()\<close>: the table member starts empty, then \<^verbatim>\<open>init()\<close>.\<close>

definition deque_new :: "'a deque" where
  "deque_new = init \<lparr>d_size = 0, d_x = []\<rparr>"

text \<open>\<^verbatim>\<open>clear()\<close>: \<^verbatim>\<open>x.clear(); init()\<close>.\<close>

definition clear :: "'a deque \<Rightarrow> 'a deque" where
  "clear s = init (s\<lparr>d_x := []\<rparr>)"

definition throw_if_out_of_bound :: "'a deque \<Rightarrow> int \<Rightarrow> bool \<Rightarrow> error option" where
  "throw_if_out_of_bound s pos include_end =
     (if include_end \<and> pos = d_size s then None
      else if pos < 0 \<or> pos \<ge> d_size s then Some index_out_of_bound
      else None)"

subsection \<open>Locator\<close>

text \<open>The forward loop of \<^verbatim>\<open>find_at\<close>, from chunk \<open>i\<close> with remaining offset \<open>p\<close>.\<close>

function find_at_fwd :: "'a list list \<Rightarrow> nat \<Rightarrow> int \<Rightarrow> (nat \<times> int) option" where
  "find_at_fwd x i p =
     (if i \<ge> length x then None
      else if p \<ge> int (length (x ! i)) then
        (if length (x ! i) = 0 then find_at_fwd x (i + 1) p
         else find_at_fwd x (i + 1) (p - int (length (x ! i))))
      else Some (i, p))"
  by pat_completeness auto
termination
  by (relation "measure (\<lambda>(x, i, p). length x - i)") auto

declare find_at_fwd.simps [simp del]

text \<open>The backward loop of \<^verbatim>\<open>find_at\<close>; \<open>i\<close> is an index into the table, and stepping
  below chunk 0 reads \<^verbatim>\<open>x[-1]\<close>.\<close>

fun find_at_bwd :: "'a list list \<Rightarrow> nat \<Rightarrow> int \<Rightarrow> (nat \<times> int) option" where
  "find_at_bwd x 0 p = (if p > int (length (x ! 0)) then None else Some (0, p))"
| "find_at_bwd x (Suc i) p =
     (if p > int (length (x ! Suc i)) then
        (if length (x ! Suc i) = 0 then find_at_bwd x i p
         else find_at_bwd x i (p - int (length (x ! Suc i))))
      else Some (Suc i, p))"

definition find_at :: "'a deque \<Rightarrow> int \<Rightarrow> (nat \<times> int) option" where
  "find_at s pos =
     (if pos \<le> d_size s div 2 then find_at_fwd (d_x s) 0 pos
      else if d_x s = [] then None
      else (case find_at_bwd (d_x s) (length (d_x s) - 1) (d_size s - pos) of
              None \<Rightarrow> None
            | Some (i, p) \<Rightarrow> Some (i, int (length (d_x s ! i)) - p)))"

text \<open>\<^verbatim>\<open>access\<close>: bounds check, locate, read the slot.\<close>

definition access :: "'a deque \<Rightarrow> int \<Rightarrow> error + 'a" where
  "access s pos =
     (case throw_if_out_of_bound s pos False of
        Some e \<Rightarrow> Inl e
      | None \<Rightarrow>
          (case find_at s pos of
             None \<Rightarrow> Inl undefined_behaviour
           | Some (i, p) \<Rightarrow>
               if 0 \<le> p \<and> p < int (length (d_x s ! i)) then Inr (d_x s ! i ! nat p)
               else Inl undefined_behaviour))"

text \<open>The forward loop of \<^verbatim>\<open>find_at_allow_end\<close>.\<close>

function find_at_allow_end_fwd :: "'a list list \<Rightarrow> nat \<Rightarrow> int \<Rightarrow> (nat \<times> int) option" where
  "find_at_allow_end_fwd x i p =
     (if i \<ge> length x then None
      else if p > int (length (x ! i)) then
        find_at_allow_end_fwd x (i + 1) (p - int (length (x ! i)))
      else Some (i, p))"
  by pat_completeness auto
termination
  by (relation "measure (\<lambda>(x, i, p). length x - i)") auto

declare find_at_allow_end_fwd.simps [simp del]

text \<open>The backward loop of \<^verbatim>\<open>find_at_allow_end\<close>; it stops at chunk 0 (\<^verbatim>\<open>i != 0\<close>).\<close>

fun find_at_allow_end_bwd :: "'a list list \<Rightarrow> nat \<Rightarrow> int \<Rightarrow> nat \<times> int" where
  "find_at_allow_end_bwd x 0 p = (0, p)"
| "find_at_allow_end_bwd x (Suc i) p =
     (if p \<ge> int (length (x ! Suc i)) then
        find_at_allow_end_bwd x i (p - int (length (x ! Suc i)))
      else (Suc i, p))"

definition find_at_allow_end :: "'a deque \<Rightarrow> int \<Rightarrow> (nat \<times> int) option" where
  "find_at_allow_end s pos =
     (if pos \<le> d_size s div 2 then find_at_allow_end_fwd (d_x s) 0 pos
      else if d_x s = [] then None
      else (case find_at_allow_end_bwd (d_x s) (length (d_x s) - 1) (d_size s - pos) of
              (i, p) \<Rightarrow> Some (i, int (length (d_x s ! i)) - p)))"

subsection \<open>Rebalancer\<close>

text \<open>A product of two \<^verbatim>\<open>int\<close>s as a 32-bit two's-complement machine computes it.\<close>

definition int32 :: "int \<Rightarrow> int" where
  "int32 v = (v + 2147483648) mod 4294967296 - 2147483648"

text \<open>The first argument of both predicates is the member \<^verbatim>\<open>_size\<close>.\<close>

definition should_split :: "int \<Rightarrow> int \<Rightarrow> bool" where
  "should_split csize total_size \<longleftrightarrow>
     total_size \<ge> 16 \<and> int32 (total_size * total_size) > int32 (csize * 8)"

definition should_merge :: "int \<Rightarrow> int \<Rightarrow> bool" where
  "should_merge csize total_size \<longleftrightarrow>
     int32 (int32 (total_size * total_size) * 64) \<le> csize"

text \<open>\<^verbatim>\<open>split_chunk\<close>: a fresh chunk is inserted at \<open>chunk\<close>, receives the first
  \<^verbatim>\<open>split_size\<close> slots of the old chunk (now at \<open>chunk + 1\<close>), which keeps the rest.\<close>

definition split_chunk :: "'a list list \<Rightarrow> nat \<Rightarrow> 'a list list" where
  "split_chunk x chunk =
     (let split_size = length (x ! chunk) div 2;
          x1 = Vector_insert chunk [] x;
          chk_b = x1 ! (chunk + 1);
          x2 = x1[chunk := take split_size chk_b]
      in x2[chunk + 1 := drop split_size chk_b])"

text \<open>\<^verbatim>\<open>merge_chunk\<close>: the right chunk is appended to the left one, emptied and erased.\<close>

definition merge_chunk :: "'a list list \<Rightarrow> nat \<Rightarrow> 'a list list" where
  "merge_chunk x chunk =
     (let chk_a = x ! chunk;
          chk_b = x ! (chunk + 1);
          x1 = x[chunk := chk_a @ chk_b];
          x2 = x1[chunk + 1 := []]
      in Vector_erase (chunk + 1) x2)"

text \<open>The loop of \<^verbatim>\<open>clear_zero\<close>: \<^verbatim>\<open>for (i = 0; i < x.size() - 1; i++)\<close>, with
  \<^verbatim>\<open>x.size()\<close> read again at every test.\<close>

function clear_zero_loop :: "'a list list \<Rightarrow> nat \<Rightarrow> 'a list list" where
  "clear_zero_loop x i =
     (if Suc i < length x then
        (if length (x ! i) = 0 then clear_zero_loop (Vector_erase i x) (i + 1)
         else clear_zero_loop x (i + 1))
      else x)"
  by pat_completeness auto
termination
  by (relation "measure (\<lambda>(x, i). length x - i)") (auto simp: Vector_erase_def)

declare clear_zero_loop.simps [simp del]

definition clear_zero :: "'a list list \<Rightarrow> 'a list list" where
  "clear_zero x = (if length x \<le> 1 then x else clear_zero_loop x 0)"

text \<open>The first loop of \<^verbatim>\<open>gc\<close>: after a split the extra \<^verbatim>\<open>++i\<close> steps over both halves.\<close>

function gc_split_loop :: "int \<Rightarrow> 'a list list \<Rightarrow> nat \<Rightarrow> 'a list list" where
  "gc_split_loop csize x i =
     (if i < length x then
        (if should_split csize (int (length (x ! i))) then
           gc_split_loop csize (split_chunk x i) (i + 2)
         else gc_split_loop csize x (i + 1))
      else x)"
  by pat_completeness auto
termination
  by (relation "measure (\<lambda>(csize, x, i). Suc (length x) - i)")
    (auto simp: split_chunk_def Vector_insert_def Let_def)

declare gc_split_loop.simps [simp del]

text \<open>The second loop of \<^verbatim>\<open>gc\<close>: after a merge, \<^verbatim>\<open>--i\<close> and the loop's \<^verbatim>\<open>i++\<close>
  leave \<open>i\<close> where it is.\<close>

function gc_merge_loop :: "int \<Rightarrow> 'a list list \<Rightarrow> nat \<Rightarrow> 'a list list" where
  "gc_merge_loop csize x i =
     (if Suc i < length x then
        (if should_merge csize (int (length (x ! i)) + int (length (x ! (i + 1)))) then
           gc_merge_loop csize (merge_chunk x i) i
         else gc_merge_loop csize x (i + 1))
      else x)"
  by pat_completeness auto
termination
  by (relation "measure (\<lambda>(csize, x, i). 2 * length x - i)")
    (auto simp: merge_chunk_def Vector_erase_def Let_def)

declare gc_merge_loop.simps [simp del]

definition gc :: "'a deque \<Rightarrow> 'a deque" where
  "gc s =
     (let x1 = clear_zero (d_x s);
          x2 = gc_split_loop (d_size s) x1 0;
          x3 = gc_merge_loop (d_size s) x2 0
      in s\<lparr>d_x := x3\<rparr>)"

subsection \<open>Mutators\<close>

text \<open>The last argument \<open>r\<close> of a mutator is the value its call of \<^verbatim>\<open>rand()\<close> returns.\<close>

definition insert_at :: "'a deque \<Rightarrow> int \<Rightarrow> 'a \<Rightarrow> int \<Rightarrow> error + ('a deque \<times> int)" where
  "insert_at s pos v r =
     (case throw_if_out_of_bound s pos True of
        Some e \<Rightarrow> Inl e
      | None \<Rightarrow>
          (case find_at_allow_end s pos of
             None \<Rightarrow> Inl undefined_behaviour
           | Some (i, p) \<Rightarrow>
               if p < 0 \<or> p > int (length (d_x s ! i)) then Inl undefined_behaviour
               else
                 let x1 = (d_x s)[i := Vector_insert (nat p) v (d_x s ! i)];
                     size1 = d_size s + 1;
                     x2 = (if should_split size1 (int (length (x1 ! i)))
                           then split_chunk x1 i else x1);
                     s2 = \<lparr>d_size = size1, d_x = x2\<rparr>;
                     s3 = (if r < INSERT_GC_THRESHOLD then gc s2 else s2)
                 in Inr (s3, pos)))"

definition remove_at :: "'a deque \<Rightarrow> int \<Rightarrow> int \<Rightarrow> error + ('a deque \<times> int)" where
  "remove_at s pos r =
     (case throw_if_out_of_bound s pos False of
        Some e \<Rightarrow> Inl e
      | None \<Rightarrow>
          (case find_at s pos of
             None \<Rightarrow> Inl undefined_behaviour
           | Some (i, p) \<Rightarrow>
               if p < 0 \<or> p \<ge> int (length (d_x s ! i)) then Inl undefined_behaviour
               else
                 let x1 = (d_x s)[i := Vector_erase (nat p) (d_x s ! i)];
                     size1 = d_size s - 1;
                     x2 = (if Suc i \<noteq> length x1 then
                             (if should_merge size1
                                   (int (length (x1 ! i)) + int (length (x1 ! (i + 1))))
                              then merge_chunk x1 i else x1)
                           else
                             (if length x1 > 1 \<and> length (x1 ! i) = 0
                              then Vector_erase i x1 else x1));
                     s2 = \<lparr>d_size = size1, d_x = x2\<rparr>;
                     s3 = (if r < REMOVE_GC_THRESHOLD then gc s2 else s2)
                 in Inr (s3, pos)))"

subsection \<open>Iterators\<close>

text \<open>An iterator holds the address \<^verbatim>\<open>q\<close> of its container (\<open>None\<close> is the null
  pointer) and a logical index.  The cached element pointer \<^verbatim>\<open>elem\<close> is null in every
  iterator a constructor or an iterator motion returns; the model covers those.\<close>

type_synonym addr = nat

record iterator =
  it_q :: "addr option"
  it_pos :: int

text \<open>\<^verbatim>\<open>base_iterator()\<close> is \<^verbatim>\<open>base_iterator(nullptr, 0)\<close>.\<close>

definition default_iterator :: iterator where
  "default_iterator = \<lparr>it_q = None, it_pos = 0\<rparr>"

definition owns :: "iterator \<Rightarrow> addr \<Rightarrow> bool" where
  "owns it q \<longleftrightarrow> it_q it = Some q"

definition begin_it :: "addr \<Rightarrow> 'a deque \<Rightarrow> iterator" where
  "begin_it this s = \<lparr>it_q = Some this, it_pos = 0\<rparr>"

definition end_it :: "addr \<Rightarrow> 'a deque \<Rightarrow> iterator" where
  "end_it this s = \<lparr>it_q = Some this, it_pos = d_size s\<rparr>"

text \<open>\<^verbatim>\<open>operator*\<close> with an empty cache: \<^verbatim>\<open>elem = &q->access(pos)\<close>, with no test of
  \<^verbatim>\<open>q\<close>.  The store \<open>h\<close> gives the container living at an address.\<close>

definition operator_star :: "(addr \<Rightarrow> 'a deque option) \<Rightarrow> iterator \<Rightarrow> error + 'a" where
  "operator_star h it =
     (case it_q it of
        None \<Rightarrow> Inl undefined_behaviour
      | Some a \<Rightarrow>
          (case h a of
             None \<Rightarrow> Inl undefined_behaviour
           | Some s \<Rightarrow> access s (it_pos it)))"

subsection \<open>Public operations\<close>

definition deque_front :: "'a deque \<Rightarrow> error + 'a" where
  "deque_front s = access s 0"

text \<open>\<^verbatim>\<open>back()\<close> passes \<^verbatim>\<open>size() - 1\<close>, computed in \<^verbatim>\<open>size_t\<close> and converted to
  \<^verbatim>\<open>int\<close>: on an empty container that is \<open>-1\<close>.  The same holds for \<^verbatim>\<open>pop_back\<close>.\<close>

definition deque_back :: "'a deque \<Rightarrow> error + 'a" where
  "deque_back s = access s (d_size s - 1)"

text \<open>\<^verbatim>\<open>at\<close> and \<^verbatim>\<open>operator[]\<close> take a \<^verbatim>\<open>size_t\<close> and hand it to \<^verbatim>\<open>access(int)\<close>;
  the conversion keeps the low 32 bits.\<close>

definition deque_at :: "'a deque \<Rightarrow> nat \<Rightarrow> error + 'a" where
  "deque_at s pos = access s (int32 (int pos))"

definition push_back :: "'a deque \<Rightarrow> 'a \<Rightarrow> int \<Rightarrow> error + 'a deque" where
  "push_back s v r = map_sum id fst (insert_at s (d_size s) v r)"

definition pop_back :: "'a deque \<Rightarrow> int \<Rightarrow> error + 'a deque" where
  "pop_back s r = map_sum id fst (remove_at s (d_size s - 1) r)"

definition push_front :: "'a deque \<Rightarrow> 'a \<Rightarrow> int \<Rightarrow> error + 'a deque" where
  "push_front s v r = map_sum id fst (insert_at s 0 v r)"

definition pop_front :: "'a deque \<Rightarrow> int \<Rightarrow> error + 'a deque" where
  "pop_front s r = map_sum id fst (remove_at s 0 r)"

definition deque_insert :: "addr \<Rightarrow> 'a deque \<Rightarrow> iterator \<Rightarrow> 'a \<Rightarrow> int \<Rightarrow> error + ('a deque \<times> iterator)" where
  "deque_insert this s it v r =
     (if \<not> owns it this then Inl invalid_iterator
      else (case insert_at s (it_pos it) v r of
              Inl e \<Rightarrow> Inl e
            | Inr (s', p) \<Rightarrow> Inr (s', \<lparr>it_q = Some this, it_pos = p\<rparr>)))"

definition erase :: "addr \<Rightarrow> 'a deque \<Rightarrow> iterator \<Rightarrow> int \<Rightarrow> error + ('a deque \<times> iterator)" where
  "erase this s it r =
     (if \<not> owns it this then Inl invalid_iterator
      else (case remove_at s (it_pos it) r of
              Inl e \<Rightarrow> Inl e
            | Inr (s', p) \<Rightarrow> Inr (s', \<lparr>it_q = Some this, it_pos = p\<rparr>)))"

subsection \<open>Sequences of public calls\<close>

text \<open>The state-changing public operations; \<^verbatim>\<open>gc\<close> is declared public.  A mutator
  carries the value its \<^verbatim>\<open>rand()\<close> call returns.\<close>

datatype 'a call =
    Push_back 'a int
  | Push_front 'a int
  | Pop_back int
  | Pop_front int
  | Insert iterator 'a int
  | Erase iterator int
  | Clear
  | Gc

fun call_step :: "addr \<Rightarrow> 'a deque \<Rightarrow> 'a call \<Rightarrow> error + 'a deque" where
  "call_step this s (Push_back v r) = push_back s v r"
| "call_step this s (Push_front v r) = push_front s v r"
| "call_step this s (Pop_back r) = pop_back s r"
| "call_step this s (Pop_front r) = pop_front s r"
| "call_step this s (Insert it v r) = map_sum id fst (deque_insert this s it v r)"
| "call_step this s (Erase it r) = map_sum id fst (erase this s it r)"
| "call_step this s Clear = Inr (clear s)"
| "call_step this s Gc = Inr (gc s)"

text \<open>A run performs the calls in order on the container at address \<open>this\<close> and stops at
  the first one that fails, so in a run that returns a state every call was successful.
  (A call that throws does so in \<^verbatim>\<open>check_owns\<close> or \<^verbatim>\<open>throw_if_out_of_bound\<close>, before it
  writes any field, so a caller that catches the exception goes on from the same state.)\<close>

fun run_calls :: "addr \<Rightarrow> 'a call list \<Rightarrow> 'a deque \<Rightarrow> error + 'a deque" where
  "run_calls this [] s = Inr s"
| "run_calls this (c # cs) s =
     (case call_step this s c of Inl e \<Rightarrow> Inl e | Inr s' \<Rightarrow> run_calls this cs s')"

definition reachable :: "'a deque \<Rightarrow> bool" where
  "reachable s \<longleftrightarrow> (\<exists>this cs. run_calls this cs deque_new = Inr s)"

text \<open>The logical sequence: the chunks in table order, each in slot order.\<close>

definition contents :: "'a deque \<Rightarrow> 'a list" where
  "contents s = concat (d_x s)"

subsection \<open>Representation invariant\<close>

text \<open>The table is never empty and \<^verbatim>\<open>_size\<close> is the number of stored elements.\<close>

definition wf :: "'a deque \<Rightarrow> bool" where
  "wf s \<longleftrightarrow> d_x s \<noteq> [] \<and> d_size s = int (length (concat (d_x s)))"

subsection \<open>Observations, call counts and balance\<close>








text \<open>The split and merge predicates as the specification words them, over mathematical
  integers; a table is \<open>split_free\<close> when no chunk satisfies the first, \<open>merge_free\<close>
  when no pair of adjacent chunks satisfies the second, and \<open>balanced\<close> when it is both.\<close>

definition split_predicate :: "int \<Rightarrow> int \<Rightarrow> bool" where
  "split_predicate n len \<longleftrightarrow> len \<ge> 16 \<and> len * len > 8 * n"

definition merge_predicate :: "int \<Rightarrow> int \<Rightarrow> int \<Rightarrow> bool" where
  "merge_predicate n len_a len_b \<longleftrightarrow> (len_a + len_b) * (len_a + len_b) * 64 \<le> n"

definition split_free :: "'a deque \<Rightarrow> bool" where
  "split_free s \<longleftrightarrow>
     list_all (\<lambda>c. \<not> split_predicate (d_size s) (int (length c))) (d_x s)"

definition merge_free :: "'a deque \<Rightarrow> bool" where
  "merge_free s \<longleftrightarrow>
     list_all (\<lambda>(a, b). \<not> merge_predicate (d_size s) (int (length a)) (int (length b)))
       (zip (d_x s) (tl (d_x s)))"

definition balanced :: "'a deque \<Rightarrow> bool" where
  "balanced s \<longleftrightarrow> split_free s \<and> merge_free s"

section \<open>Properties of the locator, the rebalancer and the mutators\<close>

subsection \<open>Chunk tables as concatenations\<close>

lemma concat_nth_chunk:
  assumes "i < length x" "q < length (x ! i)"
  shows "concat x ! (length (concat (take i x)) + q) = x ! i ! q"
proof -
  have "x = take i x @ x ! i # drop (Suc i) x"
    using assms(1) by (simp add: id_take_nth_drop)
  then have "concat x = concat (take i x) @ x ! i @ concat (drop (Suc i) x)"
    by (metis concat.simps(2) concat_append)
  then show ?thesis using assms(2) by (simp add: nth_append)
qed

lemma concat_split_at:
  assumes "i < length x"
  shows "concat x = concat (take i x) @ x ! i @ concat (drop (Suc i) x)"
proof -
  have "x = take i x @ x ! i # drop (Suc i) x"
    using assms by (simp add: id_take_nth_drop)
  then show ?thesis by (metis concat.simps(2) concat_append)
qed

lemma concat_update:
  assumes "i < length x"
  shows "concat (x[i := c]) = concat (take i x) @ c @ concat (drop (Suc i) x)"
  using assms by (simp add: upd_conv_take_nth_drop)

lemma concat_take_Suc:
  "i < length x \<Longrightarrow> concat (take (Suc i) x) = concat (take i x) @ x ! i"
  by (simp add: take_Suc_conv_app_nth)

lemma concat_drop_nth:
  "i < length x \<Longrightarrow> concat (drop i x) = x ! i @ concat (drop (Suc i) x)"
  by (simp add: Cons_nth_drop_Suc [symmetric])

lemma find_at_fwd_spec:
  "0 \<le> p \<Longrightarrow> p < int (length (concat (drop i x))) \<Longrightarrow>
   \<exists>j q. find_at_fwd x i p = Some (j, q) \<and> j < length x \<and> 0 \<le> q \<and> q < int (length (x ! j))
     \<and> int (length (concat (take j x))) + q = int (length (concat (take i x))) + p"
proof (induction x i p rule: find_at_fwd.induct)
  case (1 x i p)
  show ?case
  proof (cases "i < length x")
    case False
    with "1.prems" show ?thesis by simp
  next
    case True
    note il = True
    show ?thesis
    proof (cases "p \<ge> int (length (x ! i))")
      case False
      with il "1.prems" show ?thesis by (subst find_at_fwd.simps) auto
    next
      case True
      have d: "length (concat (drop i x)) = length (x ! i) + length (concat (drop (Suc i) x))"
        using il by (simp add: concat_drop_nth)
      have t: "length (concat (take (Suc i) x)) = length (concat (take i x)) + length (x ! i)"
        using il by (simp add: concat_take_Suc)
      show ?thesis
      proof (cases "length (x ! i) = 0")
        case True
        have "\<exists>j q. find_at_fwd x (i + 1) p = Some (j, q) \<and> j < length x \<and> 0 \<le> q
           \<and> q < int (length (x ! j))
           \<and> int (length (concat (take j x))) + q = int (length (concat (take (i + 1) x))) + p"
          using "1.IH"(1) il \<open>p \<ge> int (length (x ! i))\<close> True "1.prems" d by simp
        then show ?thesis
          using il \<open>p \<ge> int (length (x ! i))\<close> True t
          by (subst find_at_fwd.simps) auto
      next
        case False
        have "\<exists>j q. find_at_fwd x (i + 1) (p - int (length (x ! i))) = Some (j, q) \<and> j < length x \<and> 0 \<le> q
           \<and> q < int (length (x ! j))
           \<and> int (length (concat (take j x))) + q
               = int (length (concat (take (i + 1) x))) + (p - int (length (x ! i)))"
          using "1.IH"(2) il \<open>p \<ge> int (length (x ! i))\<close> False "1.prems" d by simp
        then show ?thesis
          using il \<open>p \<ge> int (length (x ! i))\<close> False t
          by (subst find_at_fwd.simps) auto
      qed
    qed
  qed
qed

lemma find_at_bwd_spec:
  "i < length x \<Longrightarrow> 0 < p \<Longrightarrow> p \<le> int (length (concat (take (Suc i) x))) \<Longrightarrow>
   \<exists>j q. find_at_bwd x i p = Some (j, q) \<and> j < length x \<and> 0 < q \<and> q \<le> int (length (x ! j))
     \<and> int (length (concat (take (Suc j) x))) - q = int (length (concat (take (Suc i) x))) - p"
proof (induction i arbitrary: p)
  case 0
  then show ?case by (auto simp: take_Suc_conv_app_nth)
next
  case (Suc i)
  have t: "length (concat (take (Suc (Suc i)) x)) = length (concat (take (Suc i) x)) + length (x ! Suc i)"
    using Suc.prems(1) by (simp add: concat_take_Suc)
  show ?case
  proof (cases "p > int (length (x ! Suc i))")
    case False
    with Suc.prems show ?thesis by auto
  next
    case True
    have il: "i < length x" using Suc.prems(1) by simp
    have "\<exists>j q. find_at_bwd x i (p - int (length (x ! Suc i))) = Some (j, q) \<and> j < length x \<and> 0 < q
       \<and> q \<le> int (length (x ! j))
       \<and> int (length (concat (take (Suc j) x))) - q
           = int (length (concat (take (Suc i) x))) - (p - int (length (x ! Suc i)))"
      using Suc.IH [OF il, of "p - int (length (x ! Suc i))"] True Suc.prems t by simp
    then show ?thesis using True t by auto
  qed
qed

lemma find_at_spec:
  assumes "wf s" "0 \<le> pos" "pos < d_size s"
  shows "\<exists>i q. find_at s pos = Some (i, q) \<and> i < length (d_x s) \<and> 0 \<le> q
     \<and> q < int (length (d_x s ! i))
     \<and> int (length (concat (take i (d_x s)))) + q = pos"
proof (cases "pos \<le> d_size s div 2")
  case True
  have "pos < int (length (concat (drop 0 (d_x s))))"
    using assms by (simp add: wf_def)
  from find_at_fwd_spec [OF assms(2) this] True show ?thesis
    by (simp add: find_at_def)
next
  case False
  let ?x = "d_x s"
  have ne: "?x \<noteq> []" using assms(1) by (simp add: wf_def)
  then have il: "length ?x - 1 < length ?x" by simp
  have full: "take (Suc (length ?x - 1)) ?x = ?x" using ne by simp
  have sz: "d_size s = int (length (concat ?x))" using assms(1) by (simp add: wf_def)
  have p1: "0 < d_size s - pos" using assms(3) by simp
  have p2: "d_size s - pos \<le> int (length (concat (take (Suc (length ?x - 1)) ?x)))"
    using assms(2) sz full by simp
  from find_at_bwd_spec [OF il p1 p2] obtain j q where
    f: "find_at_bwd ?x (length ?x - 1) (d_size s - pos) = Some (j, q)"
    and j: "j < length ?x" and q: "0 < q" "q \<le> int (length (?x ! j))"
    and e: "int (length (concat (take (Suc j) ?x))) - q
              = int (length (concat (take (Suc (length ?x - 1)) ?x))) - (d_size s - pos)"
    by blast
  have t: "length (concat (take (Suc j) ?x)) = length (concat (take j ?x)) + length (?x ! j)"
    using j by (simp add: concat_take_Suc)
  have "int (length (concat (take j ?x))) + (int (length (?x ! j)) - q) = pos"
    using e t full sz by simp
  then show ?thesis using False ne f j q by (simp add: find_at_def)
qed

lemma access_in_range:
  assumes "wf s" "0 \<le> pos" "pos < d_size s"
  shows "access s pos = Inr (concat (d_x s) ! nat pos)"
proof -
  from find_at_spec [OF assms] obtain i q where
    f: "find_at s pos = Some (i, q)" and i: "i < length (d_x s)"
    and q: "0 \<le> q" "q < int (length (d_x s ! i))"
    and e: "int (length (concat (take i (d_x s)))) + q = pos"
    by blast
  have "nat pos = length (concat (take i (d_x s))) + nat q" using e q by linarith
  moreover have "nat q < length (d_x s ! i)" using q by linarith
  ultimately have "concat (d_x s) ! nat pos = d_x s ! i ! nat q"
    using concat_nth_chunk [OF i] by simp
  then show ?thesis using assms(2,3) f q
    by (simp add: access_def throw_if_out_of_bound_def)
qed

lemma access_out_of_range:
  "pos < 0 \<or> pos \<ge> d_size s \<Longrightarrow> access s pos = Inl index_out_of_bound"
  by (simp add: access_def throw_if_out_of_bound_def)

lemma find_at_allow_end_fwd_spec:
  "i < length x \<Longrightarrow> 0 \<le> p \<Longrightarrow> p \<le> int (length (concat (drop i x))) \<Longrightarrow>
   \<exists>j q. find_at_allow_end_fwd x i p = Some (j, q) \<and> j < length x \<and> 0 \<le> q
     \<and> q \<le> int (length (x ! j))
     \<and> int (length (concat (take j x))) + q = int (length (concat (take i x))) + p"
proof (induction x i p rule: find_at_allow_end_fwd.induct)
  case (1 x i p)
  note il = "1.prems"(1)
  show ?case
  proof (cases "p > int (length (x ! i))")
    case False
    with "1.prems" show ?thesis by (subst find_at_allow_end_fwd.simps) auto
  next
    case True
    have d: "length (concat (drop i x)) = length (x ! i) + length (concat (drop (Suc i) x))"
      using il by (simp add: concat_drop_nth)
    have t: "length (concat (take (Suc i) x)) = length (concat (take i x)) + length (x ! i)"
      using il by (simp add: concat_take_Suc)
    have "0 < length (concat (drop (Suc i) x))" using True d "1.prems"(3) by linarith
    then have sl: "i + 1 < length x" by (cases "Suc i < length x") auto
    have "\<exists>j q. find_at_allow_end_fwd x (i + 1) (p - int (length (x ! i))) = Some (j, q)
        \<and> j < length x \<and> 0 \<le> q \<and> q \<le> int (length (x ! j))
        \<and> int (length (concat (take j x))) + q
            = int (length (concat (take (i + 1) x))) + (p - int (length (x ! i)))"
      using "1.IH" il True sl "1.prems" d by simp
    then show ?thesis using il True t
      by (subst find_at_allow_end_fwd.simps) auto
  qed
qed

lemma find_at_allow_end_bwd_spec:
  "i < length x \<Longrightarrow> 0 \<le> p \<Longrightarrow> p \<le> int (length (concat (take (Suc i) x))) \<Longrightarrow>
   \<exists>j q. find_at_allow_end_bwd x i p = (j, q) \<and> j < length x \<and> 0 \<le> q
     \<and> q \<le> int (length (x ! j))
     \<and> int (length (concat (take (Suc j) x))) - q = int (length (concat (take (Suc i) x))) - p"
proof (induction i arbitrary: p)
  case 0
  then show ?case by (auto simp: take_Suc_conv_app_nth)
next
  case (Suc i)
  have t: "length (concat (take (Suc (Suc i)) x)) = length (concat (take (Suc i) x)) + length (x ! Suc i)"
    using Suc.prems(1) by (simp add: concat_take_Suc)
  show ?case
  proof (cases "p \<ge> int (length (x ! Suc i))")
    case False
    with Suc.prems show ?thesis by auto
  next
    case True
    have il: "i < length x" using Suc.prems(1) by simp
    have "\<exists>j q. find_at_allow_end_bwd x i (p - int (length (x ! Suc i))) = (j, q) \<and> j < length x
       \<and> 0 \<le> q \<and> q \<le> int (length (x ! j))
       \<and> int (length (concat (take (Suc j) x))) - q
           = int (length (concat (take (Suc i) x))) - (p - int (length (x ! Suc i)))"
      using Suc.IH [OF il, of "p - int (length (x ! Suc i))"] True Suc.prems t by simp
    then show ?thesis using True t by auto
  qed
qed

lemma find_at_allow_end_spec:
  assumes "wf s" "0 \<le> pos" "pos \<le> d_size s"
  shows "\<exists>i q. find_at_allow_end s pos = Some (i, q) \<and> i < length (d_x s) \<and> 0 \<le> q
     \<and> q \<le> int (length (d_x s ! i))
     \<and> int (length (concat (take i (d_x s)))) + q = pos"
proof (cases "pos \<le> d_size s div 2")
  case True
  have ne: "0 < length (d_x s)" using assms(1) by (simp add: wf_def)
  have "pos \<le> int (length (concat (drop 0 (d_x s))))"
    using assms by (simp add: wf_def)
  from find_at_allow_end_fwd_spec [OF ne assms(2) this] True show ?thesis
    by (simp add: find_at_allow_end_def)
next
  case False
  let ?x = "d_x s"
  have ne: "?x \<noteq> []" using assms(1) by (simp add: wf_def)
  then have il: "length ?x - 1 < length ?x" by simp
  have full: "take (Suc (length ?x - 1)) ?x = ?x" using ne by simp
  have sz: "d_size s = int (length (concat ?x))" using assms(1) by (simp add: wf_def)
  have p1: "0 \<le> d_size s - pos" using assms(3) by simp
  have p2: "d_size s - pos \<le> int (length (concat (take (Suc (length ?x - 1)) ?x)))"
    using assms(2) sz full by simp
  from find_at_allow_end_bwd_spec [OF il p1 p2] obtain j q where
    f: "find_at_allow_end_bwd ?x (length ?x - 1) (d_size s - pos) = (j, q)"
    and j: "j < length ?x" and q: "0 \<le> q" "q \<le> int (length (?x ! j))"
    and e: "int (length (concat (take (Suc j) ?x))) - q
              = int (length (concat (take (Suc (length ?x - 1)) ?x))) - (d_size s - pos)"
    by blast
  have t: "length (concat (take (Suc j) ?x)) = length (concat (take j ?x)) + length (?x ! j)"
    using j by (simp add: concat_take_Suc)
  have "int (length (concat (take j ?x))) + (int (length (?x ! j)) - q) = pos"
    using e t full sz by simp
  then show ?thesis using False ne f j q by (simp add: find_at_allow_end_def)
qed

subsection \<open>Splitting, merging and the gc pass\<close>

lemma split_chunk_eq:
  assumes "i < length x"
  shows "split_chunk x i = take i x @ take (length (x ! i) div 2) (x ! i)
      # drop (length (x ! i) div 2) (x ! i) # drop (Suc i) x"
proof -
  have li: "length (take i x) = i" using assms by simp
  have d: "drop i x = x ! i # drop (Suc i) x"
    using assms by (simp add: Cons_nth_drop_Suc)
  have n: "(take i x @ [] # drop i x) ! Suc i = x ! i"
    using li d by (simp add: nth_append)
  have u1: "(take i x @ [] # drop i x)[i := c] = take i x @ c # drop i x" for c
    using li by (simp add: list_update_append)
  have u2: "(take i x @ c # drop i x)[Suc i := e] = take i x @ c # e # drop (Suc i) x" for c e
    using li d by (simp add: list_update_append)
  show ?thesis
    unfolding split_chunk_def Vector_insert_def Let_def
    using n u1 u2 by simp
qed

lemma concat_split_chunk: "i < length x \<Longrightarrow> concat (split_chunk x i) = concat x"
proof -
  assume a: "i < length x"
  have "take (length (x ! i) div 2) (x ! i) @ drop (length (x ! i) div 2) (x ! i) = x ! i"
    by simp
  then have "concat (split_chunk x i) = concat (take i x) @ x ! i @ concat (drop (Suc i) x)"
    using a by (simp only: split_chunk_eq concat_append concat.simps append_assoc [symmetric])
  then show ?thesis using concat_split_at [OF a] by simp
qed

lemma length_split_chunk: "i < length x \<Longrightarrow> length (split_chunk x i) = Suc (length x)"
  by (simp add: split_chunk_eq)

lemma merge_chunk_eq:
  assumes "Suc i < length x"
  shows "merge_chunk x i = take i x @ (x ! i @ x ! Suc i) # drop (Suc (Suc i)) x"
proof -
  have il: "i < length x" using assms by simp
  have "take (Suc i) (x[i := x ! i @ x ! Suc i, Suc i := []]) = take i x @ [x ! i @ x ! Suc i]"
    using il assms by (simp add: take_Suc_conv_app_nth)
  moreover have "drop (Suc (Suc i)) (x[i := x ! i @ x ! Suc i, Suc i := []]) = drop (Suc (Suc i)) x"
    by simp
  ultimately show ?thesis
    unfolding merge_chunk_def Vector_erase_def Let_def by simp
qed

lemma concat_merge_chunk: "Suc i < length x \<Longrightarrow> concat (merge_chunk x i) = concat x"
proof -
  assume a: "Suc i < length x"
  then have "x = take i x @ x ! i # x ! Suc i # drop (Suc (Suc i)) x"
    by (metis Cons_nth_drop_Suc Suc_lessD id_take_nth_drop)
  then have "concat x = concat (take i x) @ x ! i @ x ! Suc i @ concat (drop (Suc (Suc i)) x)"
    by (metis concat.simps(2) concat_append)
  then show ?thesis using a by (simp add: merge_chunk_eq)
qed

lemma length_merge_chunk: "Suc i < length x \<Longrightarrow> Suc (length (merge_chunk x i)) = length x"
  by (simp add: merge_chunk_eq)

lemma concat_Vector_erase_empty:
  "i < length x \<Longrightarrow> x ! i = [] \<Longrightarrow> concat (Vector_erase i x) = concat x"
  by (simp add: Vector_erase_def concat_split_at [of i x])

lemma clear_zero_loop_concat: "concat (clear_zero_loop x i) = concat x"
proof (induction x i rule: clear_zero_loop.induct)
  case (1 x i)
  show ?case
    using "1.IH" by (subst clear_zero_loop.simps) (simp add: concat_Vector_erase_empty)
qed

lemma clear_zero_loop_nonempty: "x \<noteq> [] \<Longrightarrow> clear_zero_loop x i \<noteq> []"
proof (induction x i rule: clear_zero_loop.induct)
  case (1 x i)
  show ?case
    using "1.IH" "1.prems"
    by (subst clear_zero_loop.simps) (auto simp: Vector_erase_def)
qed

lemma gc_split_loop_concat: "concat (gc_split_loop n x i) = concat x"
proof (induction n x i rule: gc_split_loop.induct)
  case (1 n x i)
  show ?case
    using "1.IH" by (subst gc_split_loop.simps) (simp add: concat_split_chunk)
qed

lemma gc_split_loop_nonempty: "x \<noteq> [] \<Longrightarrow> gc_split_loop n x i \<noteq> []"
proof (induction n x i rule: gc_split_loop.induct)
  case (1 n x i)
  show ?case
    using "1.IH" "1.prems"
    by (subst gc_split_loop.simps) (auto simp: split_chunk_eq)
qed

lemma gc_merge_loop_concat: "concat (gc_merge_loop n x i) = concat x"
proof (induction n x i rule: gc_merge_loop.induct)
  case (1 n x i)
  show ?case
    using "1.IH" by (subst gc_merge_loop.simps) (simp add: concat_merge_chunk)
qed

lemma gc_merge_loop_nonempty: "x \<noteq> [] \<Longrightarrow> gc_merge_loop n x i \<noteq> []"
proof (induction n x i rule: gc_merge_loop.induct)
  case (1 n x i)
  show ?case
    using "1.IH" "1.prems"
    by (subst gc_merge_loop.simps) (auto simp: merge_chunk_eq)
qed

lemma gc_size: "d_size (gc s) = d_size s"
  by (simp add: gc_def Let_def)

lemma gc_contents: "contents (gc s) = contents s"
  by (simp add: gc_def Let_def contents_def gc_merge_loop_concat gc_split_loop_concat
      clear_zero_def clear_zero_loop_concat)

lemma gc_wf: "wf s \<Longrightarrow> wf (gc s)"
  by (simp add: wf_def gc_def Let_def gc_merge_loop_concat gc_split_loop_concat
      clear_zero_def clear_zero_loop_concat gc_merge_loop_nonempty gc_split_loop_nonempty
      clear_zero_loop_nonempty)

subsection \<open>The mutators\<close>

lemma take_concat_chunk:
  assumes "i < length x" "q \<le> length (x ! i)"
  shows "take (length (concat (take i x)) + q) (concat x) = concat (take i x) @ take q (x ! i)"
  using assms by (simp add: concat_split_at [of i x])

lemma drop_concat_chunk:
  assumes "i < length x" "q \<le> length (x ! i)"
  shows "drop (length (concat (take i x)) + q) (concat x)
           = drop q (x ! i) @ concat (drop (Suc i) x)"
  using assms by (simp add: concat_split_at [of i x])

lemma concat_chunk_insert:
  assumes "i < length x" "q \<le> length (x ! i)"
  shows "concat (x[i := Vector_insert q v (x ! i)])
     = take (length (concat (take i x)) + q) (concat x)
       @ v # drop (length (concat (take i x)) + q) (concat x)"
  using assms
  by (simp add: concat_update take_concat_chunk drop_concat_chunk Vector_insert_def)

lemma concat_chunk_erase:
  assumes "i < length x" "q < length (x ! i)"
  shows "concat (x[i := Vector_erase q (x ! i)])
     = take (length (concat (take i x)) + q) (concat x)
       @ drop (Suc (length (concat (take i x)) + q)) (concat x)"
proof -
  have "Suc q \<le> length (x ! i)" using assms(2) by simp
  from drop_concat_chunk [OF assms(1) this]
  have "drop (Suc (length (concat (take i x)) + q)) (concat x)
           = drop (Suc q) (x ! i) @ concat (drop (Suc i) x)" by simp
  then show ?thesis using assms
    by (simp add: concat_update take_concat_chunk Vector_erase_def)
qed

lemma insert_at_spec:
  assumes "wf s" "0 \<le> pos" "pos \<le> d_size s"
  shows "\<exists>s'. insert_at s pos v r = Inr (s', pos) \<and> wf s'
     \<and> contents s' = take (nat pos) (contents s) @ v # drop (nat pos) (contents s)"
proof -
  from find_at_allow_end_spec [OF assms] obtain i q where
    f: "find_at_allow_end s pos = Some (i, q)" and i: "i < length (d_x s)"
    and q: "0 \<le> q" "q \<le> int (length (d_x s ! i))"
    and e: "int (length (concat (take i (d_x s)))) + q = pos"
    by blast
  define x1 where "x1 = (d_x s)[i := Vector_insert (nat q) v (d_x s ! i)]"
  define x2 where "x2 = (if should_split (d_size s + 1) (int (length (x1 ! i)))
                           then split_chunk x1 i else x1)"
  define s2 where "s2 = \<lparr>d_size = d_size s + 1, d_x = x2\<rparr>"
  define s3 where "s3 = (if r < INSERT_GC_THRESHOLD then gc s2 else s2)"
  have np: "nat pos = length (concat (take i (d_x s))) + nat q" using e q by linarith
  have nq: "nat q \<le> length (d_x s ! i)" using q by linarith
  have c1: "concat x1 = take (nat pos) (contents s) @ v # drop (nat pos) (contents s)"
    unfolding x1_def np contents_def by (rule concat_chunk_insert [OF i nq])
  have i1: "i < length x1" using i by (simp add: x1_def)
  have c2: "concat x2 = concat x1" using i1 by (simp add: x2_def concat_split_chunk)
  have n2: "x2 \<noteq> []" using i1 by (auto simp: x2_def split_chunk_eq)
  have "length (concat x1) = Suc (length (contents s))"
    using assms(2,3) assms(1) by (simp add: c1 wf_def contents_def)
  then have w2: "wf s2" using assms(1) c2 n2 by (simp add: wf_def s2_def contents_def)
  have w3: "wf s3" using w2 by (simp add: s3_def gc_wf)
  have c3: "contents s3 = take (nat pos) (contents s) @ v # drop (nat pos) (contents s)"
    using c1 c2 by (simp add: s3_def gc_contents) (simp add: contents_def s2_def)
  have t: "throw_if_out_of_bound s pos True = None"
    using assms(2,3) by (simp add: throw_if_out_of_bound_def)
  have "insert_at s pos v r = Inr (s3, pos)"
    using q by (simp add: insert_at_def t f Let_def s3_def s2_def x2_def x1_def)
  then show ?thesis using w3 c3 by blast
qed

lemma insert_at_out_of_range:
  "0 \<le> d_size s \<Longrightarrow> pos < 0 \<or> pos > d_size s \<Longrightarrow>
   insert_at s pos v r = Inl index_out_of_bound"
  by (auto simp: insert_at_def throw_if_out_of_bound_def)

lemma remove_at_spec:
  assumes "wf s" "0 \<le> pos" "pos < d_size s"
  shows "\<exists>s'. remove_at s pos r = Inr (s', pos) \<and> wf s'
     \<and> contents s' = take (nat pos) (contents s) @ drop (Suc (nat pos)) (contents s)"
proof -
  from find_at_spec [OF assms] obtain i q where
    f: "find_at s pos = Some (i, q)" and i: "i < length (d_x s)"
    and q: "0 \<le> q" "q < int (length (d_x s ! i))"
    and e: "int (length (concat (take i (d_x s)))) + q = pos"
    by blast
  define x1 where "x1 = (d_x s)[i := Vector_erase (nat q) (d_x s ! i)]"
  define x2 where "x2 = (if Suc i \<noteq> length x1 then
                             (if should_merge (d_size s - 1)
                                   (int (length (x1 ! i)) + int (length (x1 ! (i + 1))))
                              then merge_chunk x1 i else x1)
                           else
                             (if length x1 > 1 \<and> length (x1 ! i) = 0
                              then Vector_erase i x1 else x1))"
  define s2 where "s2 = \<lparr>d_size = d_size s - 1, d_x = x2\<rparr>"
  define s3 where "s3 = (if r < REMOVE_GC_THRESHOLD then gc s2 else s2)"
  have np: "nat pos = length (concat (take i (d_x s))) + nat q" using e q by linarith
  have nq: "nat q < length (d_x s ! i)" using q by linarith
  have c1: "concat x1 = take (nat pos) (contents s) @ drop (Suc (nat pos)) (contents s)"
    unfolding x1_def np contents_def by (rule concat_chunk_erase [OF i nq])
  have i1: "i < length x1" using i by (simp add: x1_def)
  have c2: "concat x2 = concat x1"
    using i1 by (auto simp: x2_def concat_merge_chunk concat_Vector_erase_empty)
  have n2: "x2 \<noteq> []"
    using i1 by (auto simp: x2_def merge_chunk_eq Vector_erase_def)
  have "nat pos < length (contents s)"
    using assms by (simp add: wf_def contents_def)
  then have "int (length (concat x1)) = int (length (contents s)) - 1"
    by (simp add: c1)
  then have w2: "wf s2" using assms(1) c2 n2 by (simp add: wf_def s2_def contents_def)
  have w3: "wf s3" using w2 by (simp add: s3_def gc_wf)
  have c3: "contents s3 = take (nat pos) (contents s) @ drop (Suc (nat pos)) (contents s)"
    using c1 c2 by (simp add: s3_def gc_contents) (simp add: contents_def s2_def)
  have t: "throw_if_out_of_bound s pos False = None"
    using assms(2,3) by (simp add: throw_if_out_of_bound_def)
  have "remove_at s pos r = Inr (s3, pos)"
    using q by (simp add: remove_at_def t f Let_def s3_def s2_def x2_def x1_def)
  then show ?thesis using w3 c3 by blast
qed

lemma remove_at_out_of_range:
  "pos < 0 \<or> pos \<ge> d_size s \<Longrightarrow> remove_at s pos r = Inl index_out_of_bound"
  by (auto simp: remove_at_def throw_if_out_of_bound_def)

subsection \<open>Reachable states satisfy the invariant\<close>

lemma deque_new_eq: "deque_new = \<lparr>d_size = 0, d_x = [[]]\<rparr>"
  by (simp add: deque_new_def init_def Vector_insert_def)

lemma clear_eq: "clear s = s\<lparr>d_size := 0, d_x := [[]]\<rparr>"
  by (simp add: clear_def init_def Vector_insert_def)

lemma wf_deque_new: "wf deque_new"
  by (simp add: deque_new_eq wf_def)

lemma wf_clear: "wf (clear s)"
  by (simp add: clear_eq wf_def)

lemma wf_size_nonneg: "wf s \<Longrightarrow> 0 \<le> d_size s"
  by (simp add: wf_def)

lemma wf_size_contents: "wf s \<Longrightarrow> d_size s = int (length (contents s))"
  by (simp add: wf_def contents_def)

lemma insert_at_cases:
  assumes "wf s"
  shows "(0 \<le> pos \<and> pos \<le> d_size s \<and> (\<exists>s'. insert_at s pos v r = Inr (s', pos) \<and> wf s'
          \<and> contents s' = take (nat pos) (contents s) @ v # drop (nat pos) (contents s)))
       \<or> insert_at s pos v r = Inl index_out_of_bound"
proof (cases "0 \<le> pos \<and> pos \<le> d_size s")
  case True
  then show ?thesis using insert_at_spec [OF assms, of pos v r] by blast
next
  case False
  then show ?thesis
    using insert_at_out_of_range [OF wf_size_nonneg [OF assms], of pos v r] by auto
qed

lemma remove_at_cases:
  assumes "wf s"
  shows "(0 \<le> pos \<and> pos < d_size s \<and> (\<exists>s'. remove_at s pos r = Inr (s', pos) \<and> wf s'
          \<and> contents s' = take (nat pos) (contents s) @ drop (Suc (nat pos)) (contents s)))
       \<or> remove_at s pos r = Inl index_out_of_bound"
proof (cases "0 \<le> pos \<and> pos < d_size s")
  case True
  then show ?thesis using remove_at_spec [OF assms, of pos r] by blast
next
  case False
  then show ?thesis using remove_at_out_of_range [of pos s r] by auto
qed

lemma call_step_wf:
  assumes "wf s" "call_step this s c = Inr s'"
  shows "wf s'"
proof (cases c)
  case (Push_back v r)
  then show ?thesis using assms insert_at_cases [OF assms(1), of "d_size s" v r]
    by (auto simp: push_back_def)
next
  case (Push_front v r)
  then show ?thesis using assms insert_at_cases [OF assms(1), of 0 v r]
    by (auto simp: push_front_def)
next
  case (Pop_back r)
  then show ?thesis using assms remove_at_cases [OF assms(1), of "d_size s - 1" r]
    by (auto simp: pop_back_def)
next
  case (Pop_front r)
  then show ?thesis using assms remove_at_cases [OF assms(1), of 0 r]
    by (auto simp: pop_front_def)
next
  case (Insert it v r)
  then show ?thesis using assms insert_at_cases [OF assms(1), of "it_pos it" v r]
    by (auto simp: deque_insert_def split: if_splits)
next
  case (Erase it r)
  then show ?thesis using assms remove_at_cases [OF assms(1), of "it_pos it" r]
    by (auto simp: erase_def split: if_splits)
next
  case Clear
  then show ?thesis using assms by (auto simp: wf_clear)
next
  case Gc
  then show ?thesis using assms by (auto simp: gc_wf)
qed

lemma run_calls_wf: "wf s \<Longrightarrow> run_calls this cs s = Inr s' \<Longrightarrow> wf s'"
proof (induction cs arbitrary: s)
  case Nil
  then show ?case by simp
next
  case (Cons c cs)
  then show ?case by (auto split: sum.splits dest: call_step_wf)
qed

lemma reachable_wf: "reachable s \<Longrightarrow> wf s"
  unfolding reachable_def using run_calls_wf [OF wf_deque_new] by blast

lemma int32_id: "- 2147483648 \<le> v \<Longrightarrow> v < 2147483648 \<Longrightarrow> int32 v = v"
  by (simp add: int32_def)

subsection \<open>Pushing and popping at the ends\<close>

lemma push_back_spec:
  assumes "wf s"
  shows "\<exists>s'. push_back s v r = Inr s' \<and> wf s' \<and> contents s' = contents s @ [v]"
proof -
  have n: "0 \<le> d_size s" using assms by (rule wf_size_nonneg)
  from insert_at_spec [where v = v and r = r, OF assms n order_refl] show ?thesis
    using wf_size_contents [OF assms] by (auto simp: push_back_def)
qed

lemma push_front_spec:
  assumes "wf s"
  shows "\<exists>s'. push_front s v r = Inr s' \<and> wf s' \<and> contents s' = v # contents s"
proof -
  have n: "0 \<le> d_size s" using assms by (rule wf_size_nonneg)
  from insert_at_spec [where v = v and r = r, OF assms order_refl n] show ?thesis
    by (auto simp: push_front_def)
qed

lemma pop_back_spec:
  assumes "wf s" "contents s \<noteq> []"
  shows "\<exists>s'. pop_back s r = Inr s' \<and> wf s' \<and> contents s' = butlast (contents s)"
proof -
  have n: "d_size s = int (length (contents s))" using assms(1) by (rule wf_size_contents)
  have "0 < length (contents s)" using assms(2) by simp
  then have p: "0 \<le> d_size s - 1" "d_size s - 1 < d_size s" using n by simp_all
  have m: "nat (d_size s - 1) = length (contents s) - 1" using n by simp
  from remove_at_spec [where r = r, OF assms(1) p] show ?thesis
    by (auto simp: pop_back_def butlast_conv_take m)
qed

lemma pop_front_spec:
  assumes "wf s" "contents s \<noteq> []"
  shows "\<exists>s'. pop_front s r = Inr s' \<and> wf s' \<and> contents s' = tl (contents s)"
proof -
  have n: "d_size s = int (length (contents s))" using assms(1) by (rule wf_size_contents)
  have "0 < length (contents s)" using assms(2) by simp
  then have p: "0 < d_size s" using n by simp
  from remove_at_spec [where r = r, OF assms(1) order_refl p] show ?thesis
    by (auto simp: pop_front_def drop_Suc)
qed


subsection \<open>The size as a count of calls\<close>








subsection \<open>What a gc pass leaves behind\<close>

lemma square_le: "0 \<le> (t :: int) \<Longrightarrow> t \<le> b \<Longrightarrow> t * t \<le> b * b"
  by (simp add: mult_mono)

lemma int32_less: "int32 v < 2147483648"
proof -
  have "(v + 2147483648) mod 4294967296 < 4294967296" by simp
  then show ?thesis by (simp add: int32_def)
qed

text \<open>For a table of at most \<open>2^28 - 1\<close> elements and a chunk of at most 2896, the test
  \<^verbatim>\<open>should_split\<close> computes the split predicate: neither product leaves the 32-bit range.\<close>

lemma should_split_eq:
  assumes "0 \<le> n" "n < 268435456" "0 \<le> t" "t \<le> 2896"
  shows "should_split n t = split_predicate n t"
proof -
  have "0 \<le> t * t" by simp
  moreover have "t * t \<le> 2896 * 2896" using assms(3,4) by (rule square_le)
  ultimately have a: "int32 (t * t) = t * t" by (intro int32_id) linarith+
  have b: "int32 (n * 8) = n * 8" using assms(1,2) by (intro int32_id) linarith+
  show ?thesis by (simp add: should_split_def split_predicate_def a b mult.commute)
qed

text \<open>For a length of at most 5792 the test \<^verbatim>\<open>should_merge\<close> computes the merge predicate.\<close>

lemma should_merge_eq:
  assumes "0 \<le> t" "t \<le> 5792"
  shows "should_merge n t \<longleftrightarrow> t * t * 64 \<le> n"
proof -
  have p: "0 \<le> t * t" by simp
  have q: "t * t \<le> 5792 * 5792" using assms by (rule square_le)
  have a: "int32 (t * t) = t * t" using p q by (intro int32_id) linarith+
  have b: "int32 (t * t * 64) = t * t * 64" using p q by (intro int32_id) linarith+
  show ?thesis by (simp add: should_merge_def a b)
qed

text \<open>Whatever the sizes, \<^verbatim>\<open>should_merge\<close> fires where the merge predicate holds: either
  nothing overflows, or \<open>n\<close> is beyond every 32-bit value.\<close>

lemma merge_predicate_should_merge:
  assumes "t * t * 64 \<le> n"
  shows "should_merge n t"
proof (cases "t * t * 64 < 2147483648")
  case True
  have p: "0 \<le> t * t" by simp
  have a: "int32 (t * t) = t * t" using p True by (intro int32_id) linarith+
  have b: "int32 (t * t * 64) = t * t * 64" using p True by (intro int32_id) linarith+
  show ?thesis using assms by (simp add: should_merge_def a b)
next
  case False
  have "int32 (int32 (t * t) * 64) < 2147483648" by (rule int32_less)
  then show ?thesis using False assms by (simp add: should_merge_def)
qed

lemma split_predicate_mono:
  assumes "0 \<le> a" "a \<le> b" "split_predicate n a"
  shows "split_predicate n b"
proof -
  have "a * a \<le> b * b" using assms(1,2) by (rule square_le)
  then show ?thesis using assms(2,3) by (auto simp: split_predicate_def)
qed

lemma merge_predicate_mono:
  assumes "0 \<le> a" "0 \<le> b" "b \<le> b'" "merge_predicate n a b'"
  shows "merge_predicate n a b"
proof -
  have "(a + b) * (a + b) \<le> (a + b') * (a + b')" using assms(1-3) by (simp add: square_le)
  then show ?thesis using assms(4) by (auto simp: merge_predicate_def)
qed

lemma merged_not_split:
  assumes "t * t * 64 \<le> n"
  shows "\<not> split_predicate n t"
proof -
  have "0 \<le> t * t" by simp
  then have "t * t \<le> 8 * n" using assms by linarith
  then show ?thesis by (simp add: split_predicate_def)
qed

lemma merged_short:
  assumes "t * t * 64 \<le> n" "n < 268435456" "0 \<le> (t :: int)"
  shows "t \<le> 2896"
proof (rule ccontr)
  assume "\<not> t \<le> 2896"
  then have "2897 \<le> t" by simp
  then have "2897 * 2897 \<le> t * t" by (intro square_le) simp_all
  then show False using assms(1,2) by simp
qed

lemma set_Vector_erase: "set (Vector_erase i x) \<subseteq> set x"
  using set_take_subset [of i x] set_drop_subset [of "Suc i" x]
  by (auto simp: Vector_erase_def)

lemma set_clear_zero_loop: "set (clear_zero_loop x i) \<subseteq> set x"
proof (induction x i rule: clear_zero_loop.induct)
  case (1 x i)
  show ?case
    using "1.IH" set_Vector_erase [of i x]
    by (subst clear_zero_loop.simps) (auto split: if_splits)
qed

lemma set_clear_zero: "set (clear_zero x) \<subseteq> set x"
  using set_clear_zero_loop [of x 0] by (simp add: clear_zero_def)

lemma take_split_chunk:
  assumes "i < length x"
  shows "set (take (i + 2) (split_chunk x i))
     = set (take i x)
       \<union> {take (length (x ! i) div 2) (x ! i), drop (length (x ! i) div 2) (x ! i)}"
  using assms by (simp add: split_chunk_eq)

lemma drop_split_chunk:
  assumes "i < length x"
  shows "drop (i + 2) (split_chunk x i) = drop (Suc i) x"
  using assms by (simp add: split_chunk_eq)

lemma set_split_chunk:
  assumes "i < length x"
  shows "set (split_chunk x i)
     \<subseteq> set x \<union> {take (length (x ! i) div 2) (x ! i), drop (length (x ! i) div 2) (x ! i)}"
  using assms set_take_subset [of i x] set_drop_subset [of "Suc i" x]
  by (auto simp: split_chunk_eq)

text \<open>The split loop, from chunk \<open>i\<close>: with the chunks before \<open>i\<close> free of the split
  predicate and the larger half of every chunk from \<open>i\<close> on free of it, no chunk of the
  result satisfies it.\<close>

lemma gc_split_loop_result:
  assumes "0 \<le> n" "n < 268435456"
    and "\<forall>c\<in>set x. length c \<le> 2896"
    and "\<forall>c\<in>set (take i x). \<not> split_predicate n (int (length c))"
    and "\<forall>c\<in>set (drop i x). \<not> split_predicate n ((int (length c) + 1) div 2)"
  shows "\<forall>c\<in>set (gc_split_loop n x i).
           \<not> split_predicate n (int (length c)) \<and> length c \<le> 2896"
  using assms
proof (induction n x i rule: gc_split_loop.induct)
  case (1 n x i)
  show ?case
  proof (cases "i < length x")
    case False
    then show ?thesis using "1.prems"(3,4) by (subst gc_split_loop.simps) simp
  next
    case True
    note il = True
    let ?c = "x ! i"
    have cm: "?c \<in> set x" using il by simp
    have cb: "length ?c \<le> 2896" using cm "1.prems"(3) by blast
    have se: "should_split n (int (length ?c)) = split_predicate n (int (length ?c))"
      using "1.prems"(1,2) cb by (simp add: should_split_eq)
    have d: "drop i x = ?c # drop (Suc i) x" using il by (simp add: Cons_nth_drop_Suc)
    have hc: "\<not> split_predicate n ((int (length ?c) + 1) div 2)"
      using "1.prems"(5) d by simp
    have rest: "\<forall>c\<in>set (drop (Suc i) x). \<not> split_predicate n ((int (length c) + 1) div 2)"
      using "1.prems"(5) d by simp
    show ?thesis
    proof (cases "should_split n (int (length ?c))")
      case True
      let ?h = "length ?c div 2"
      have la: "int (length (take ?h ?c)) \<le> (int (length ?c) + 1) div 2"
      proof -
        have "length (take ?h ?c) \<le> (length ?c + 1) div 2" by simp
        then have "int (length (take ?h ?c)) \<le> int ((length ?c + 1) div 2)"
          by (simp only: of_nat_le_iff)
        then show ?thesis by (simp add: of_nat_div)
      qed
      have lb: "int (length (drop ?h ?c)) \<le> (int (length ?c) + 1) div 2"
      proof -
        have "length (drop ?h ?c) \<le> (length ?c + 1) div 2" by simp
        then have "int (length (drop ?h ?c)) \<le> int ((length ?c + 1) div 2)"
          by (simp only: of_nat_le_iff)
        then show ?thesis by (simp add: of_nat_div)
      qed
      have a: "\<not> split_predicate n (int (length (take ?h ?c)))"
        using split_predicate_mono [OF _ la] hc by auto
      have b: "\<not> split_predicate n (int (length (drop ?h ?c)))"
        using split_predicate_mono [OF _ lb] hc by auto
      have sa: "length (take ?h ?c) \<le> 2896" using cb by simp
      have sb: "length (drop ?h ?c) \<le> 2896" using cb by simp
      have p3: "\<forall>c\<in>set (split_chunk x i). length c \<le> 2896"
        using set_split_chunk [OF il] "1.prems"(3) sa sb by blast
      have p4: "\<forall>c\<in>set (take (i + 2) (split_chunk x i)). \<not> split_predicate n (int (length c))"
        using "1.prems"(4) a b unfolding take_split_chunk [OF il] by blast
      have p5: "\<forall>c\<in>set (drop (i + 2) (split_chunk x i)).
                  \<not> split_predicate n ((int (length c) + 1) div 2)"
        using rest unfolding drop_split_chunk [OF il] by blast
      have e: "gc_split_loop n x i = gc_split_loop n (split_chunk x i) (i + 2)"
        using il True by (subst gc_split_loop.simps) simp
      from "1.IH"(1) [OF il True "1.prems"(1,2) p3 p4 p5] show ?thesis
        unfolding e .
    next
      case False
      have p4: "\<forall>c\<in>set (take (i + 1) x). \<not> split_predicate n (int (length c))"
        using "1.prems"(4) False se il by (simp add: take_Suc_conv_app_nth)
      have p5: "\<forall>c\<in>set (drop (i + 1) x). \<not> split_predicate n ((int (length c) + 1) div 2)"
        using rest by simp
      have e: "gc_split_loop n x i = gc_split_loop n x (i + 1)"
        using il False by (subst gc_split_loop.simps) simp
      from "1.IH"(2) [OF il False "1.prems"(1,2,3) p4 p5] show ?thesis
        unfolding e .
    qed
  qed
qed

lemma nth_merge_chunk_before:
  "Suc i < length x \<Longrightarrow> j < i \<Longrightarrow> merge_chunk x i ! j = x ! j"
  by (simp add: merge_chunk_eq nth_append)

lemma nth_merge_chunk_at:
  "Suc i < length x \<Longrightarrow> merge_chunk x i ! i = x ! i @ x ! Suc i"
  by (simp add: merge_chunk_eq nth_append)

lemma set_merge_chunk:
  assumes "Suc i < length x"
  shows "set (merge_chunk x i) \<subseteq> insert (x ! i @ x ! Suc i) (set x)"
  using assms set_take_subset [of i x] set_drop_subset [of "Suc (Suc i)" x]
  by (auto simp: merge_chunk_eq)

text \<open>The merge loop keeps a table of short chunks free of the split predicate: two chunks
  of at most 2896 are merged only where the merge predicate holds, and then the merged
  chunk is short again.\<close>

lemma gc_merge_loop_split_free:
  assumes "0 \<le> n" "n < 268435456"
    and "\<forall>c\<in>set x. \<not> split_predicate n (int (length c)) \<and> length c \<le> 2896"
  shows "\<forall>c\<in>set (gc_merge_loop n x i).
           \<not> split_predicate n (int (length c)) \<and> length c \<le> 2896"
  using assms
proof (induction n x i rule: gc_merge_loop.induct)
  case (1 n x i)
  show ?case
  proof (cases "Suc i < length x")
    case False
    then have e: "gc_merge_loop n x i = x" by (subst gc_merge_loop.simps) simp
    show ?thesis using "1.prems"(3) unfolding e .
  next
    case True
    note il = True
    let ?t = "int (length (x ! i)) + int (length (x ! (i + 1)))"
    show ?thesis
    proof (cases "should_merge n ?t")
      case True
      let ?m = "x ! i @ x ! Suc i"
      have "x ! i \<in> set x" "x ! Suc i \<in> set x" using il by simp_all
      then have "length (x ! i) \<le> 2896" "length (x ! Suc i) \<le> 2896"
        using "1.prems"(3) by blast+
      then have tb: "?t \<le> 5792" by simp
      have "?t * ?t * 64 \<le> n" using True should_merge_eq [of ?t n] tb by simp
      then have m64: "int (length ?m) * int (length ?m) * 64 \<le> n" by simp
      have pm: "\<not> split_predicate n (int (length ?m))" using m64 by (rule merged_not_split)
      have "int (length ?m) \<le> 2896" using m64 "1.prems"(2) by (rule merged_short) simp
      then have sm: "length ?m \<le> 2896" by linarith
      have p3: "\<forall>c\<in>set (merge_chunk x i).
                  \<not> split_predicate n (int (length c)) \<and> length c \<le> 2896"
        using set_merge_chunk [OF il] "1.prems"(3) pm sm by blast
      have e: "gc_merge_loop n x i = gc_merge_loop n (merge_chunk x i) i"
        using il True by (subst gc_merge_loop.simps) simp
      from "1.IH"(1) [OF il True "1.prems"(1,2) p3] show ?thesis unfolding e .
    next
      case False
      have e: "gc_merge_loop n x i = gc_merge_loop n x (i + 1)"
        using il False by (subst gc_merge_loop.simps) simp
      from "1.IH"(2) [OF il False "1.prems"] show ?thesis unfolding e .
    qed
  qed
qed

text \<open>The merge loop, from chunk \<open>i\<close>: with the pairs before \<open>i\<close> free of the merge
  predicate, no pair of the result satisfies it.  This needs no bound on the sizes.\<close>

lemma gc_merge_loop_merge_free:
  assumes "\<forall>j<i. Suc j < length x \<longrightarrow>
           \<not> merge_predicate n (int (length (x ! j))) (int (length (x ! Suc j)))"
  shows "\<forall>j. Suc j < length (gc_merge_loop n x i) \<longrightarrow>
             \<not> merge_predicate n (int (length (gc_merge_loop n x i ! j)))
                 (int (length (gc_merge_loop n x i ! Suc j)))"
  using assms
proof (induction n x i rule: gc_merge_loop.induct)
  case (1 n x i)
  show ?case
  proof (cases "Suc i < length x")
    case False
    then have e: "gc_merge_loop n x i = x" by (subst gc_merge_loop.simps) simp
    have "j < i" if "Suc j < length x" for j using that False by linarith
    then show ?thesis using "1.prems" unfolding e by blast
  next
    case True
    note il = True
    let ?t = "int (length (x ! i)) + int (length (x ! (i + 1)))"
    show ?thesis
    proof (cases "should_merge n ?t")
      case True
      let ?y = "merge_chunk x i"
      let ?m = "x ! i @ x ! Suc i"
      have p: "\<forall>j<i. Suc j < length ?y \<longrightarrow>
           \<not> merge_predicate n (int (length (?y ! j))) (int (length (?y ! Suc j)))"
      proof (intro allI impI)
        fix j assume j: "j < i" and "Suc j < length ?y"
        have sj: "Suc j < length x" using j il by linarith
        have old: "\<not> merge_predicate n (int (length (x ! j))) (int (length (x ! Suc j)))"
          using "1.prems" j sj by blast
        have yj: "?y ! j = x ! j" using il j by (rule nth_merge_chunk_before)
        show "\<not> merge_predicate n (int (length (?y ! j))) (int (length (?y ! Suc j)))"
        proof (cases "Suc j < i")
          case True
          then have "?y ! Suc j = x ! Suc j" using il by (simp add: nth_merge_chunk_before)
          then show ?thesis using old yj by simp
        next
          case False
          then have ji: "Suc j = i" using j by linarith
          then have ys: "?y ! Suc j = ?m" using il by (simp add: nth_merge_chunk_at)
          have "int (length (x ! Suc j)) \<le> int (length ?m)" using ji by simp
          then have "\<not> merge_predicate n (int (length (x ! j))) (int (length ?m))"
            using old merge_predicate_mono [of "int (length (x ! j))" "int (length (x ! Suc j))"
                "int (length ?m)" n] by auto
          then show ?thesis using yj ys by simp
        qed
      qed
      have e: "gc_merge_loop n x i = gc_merge_loop n ?y i"
        using il True by (subst gc_merge_loop.simps) simp
      from "1.IH"(1) [OF il True p] show ?thesis unfolding e .
    next
      case False
      have nm: "\<not> merge_predicate n (int (length (x ! i))) (int (length (x ! Suc i)))"
      proof
        assume "merge_predicate n (int (length (x ! i))) (int (length (x ! Suc i)))"
        then have "?t * ?t * 64 \<le> n" by (simp add: merge_predicate_def)
        then have "should_merge n ?t" by (rule merge_predicate_should_merge)
        then show False using False by simp
      qed
      have p: "\<forall>j<i + 1. Suc j < length x \<longrightarrow>
           \<not> merge_predicate n (int (length (x ! j))) (int (length (x ! Suc j)))"
      proof (intro allI impI)
        fix j assume j: "j < i + 1" and sj: "Suc j < length x"
        show "\<not> merge_predicate n (int (length (x ! j))) (int (length (x ! Suc j)))"
        proof (cases "j < i")
          case True
          then show ?thesis using "1.prems" sj by blast
        next
          case False
          then have "j = i" using j by linarith
          then show ?thesis using nm by simp
        qed
      qed
      have e: "gc_merge_loop n x i = gc_merge_loop n x (i + 1)"
        using il False by (subst gc_merge_loop.simps) simp
      from "1.IH"(2) [OF il False p] show ?thesis unfolding e .
    qed
  qed
qed

lemma adjacent_pairs:
  assumes "\<forall>j. Suc j < length y \<longrightarrow> Q (y ! j) (y ! Suc j)"
  shows "list_all (\<lambda>(a, b). Q a b) (zip y (tl y))"
proof -
  have "Q a b" if "(a, b) \<in> set (zip y (tl y))" for a b
  proof -
    from that obtain k where k: "y ! k = a" "tl y ! k = b" "k < length y" "k < length (tl y)"
      by (auto simp: in_set_zip)
    have "Suc k < length y" using k(4) by simp
    moreover have "tl y ! k = y ! Suc k" using k(4) by (simp add: nth_tl)
    ultimately show ?thesis using assms k by auto
  qed
  then show ?thesis by (auto simp: list_all_iff)
qed

lemma gc_merge_free: "merge_free (gc s)"
proof -
  let ?n = "d_size s"
  define x2 where "x2 = gc_split_loop ?n (clear_zero (d_x s)) 0"
  define x3 where "x3 = gc_merge_loop ?n x2 0"
  have m2: "\<forall>j<0. Suc j < length x2 \<longrightarrow>
           \<not> merge_predicate ?n (int (length (x2 ! j))) (int (length (x2 ! Suc j)))" by simp
  have m3: "\<forall>j. Suc j < length x3 \<longrightarrow>
             \<not> merge_predicate ?n (int (length (x3 ! j))) (int (length (x3 ! Suc j)))"
    unfolding x3_def by (rule gc_merge_loop_merge_free [OF m2])
  have g: "gc s = s\<lparr>d_x := x3\<rparr>" by (simp add: gc_def Let_def x3_def x2_def)
  have "list_all (\<lambda>(a, b). \<not> merge_predicate ?n (int (length a)) (int (length b)))
          (zip x3 (tl x3))"
    using m3 by (rule adjacent_pairs)
  then show ?thesis by (simp add: merge_free_def g)
qed

lemma gc_split_free:
  assumes "0 \<le> d_size s" "d_size s < 268435456"
    and "\<forall>c\<in>set (d_x s). length c \<le> 2896
           \<and> \<not> split_predicate (d_size s) ((int (length c) + 1) div 2)"
  shows "split_free (gc s)"
proof -
  let ?n = "d_size s"
  define x1 where "x1 = clear_zero (d_x s)"
  define x2 where "x2 = gc_split_loop ?n x1 0"
  define x3 where "x3 = gc_merge_loop ?n x2 0"
  have s1: "\<forall>c\<in>set x1. length c \<le> 2896"
    using assms(3) set_clear_zero [of "d_x s"] by (auto simp: x1_def)
  have h1: "\<forall>c\<in>set (drop 0 x1). \<not> split_predicate ?n ((int (length c) + 1) div 2)"
    using assms(3) set_clear_zero [of "d_x s"] by (auto simp: x1_def)
  have t1: "\<forall>c\<in>set (take 0 x1). \<not> split_predicate ?n (int (length c))" by simp
  have p2: "\<forall>c\<in>set x2. \<not> split_predicate ?n (int (length c)) \<and> length c \<le> 2896"
    unfolding x2_def by (rule gc_split_loop_result [OF assms(1,2) s1 t1 h1])
  have p3: "\<forall>c\<in>set x3. \<not> split_predicate ?n (int (length c)) \<and> length c \<le> 2896"
    unfolding x3_def by (rule gc_merge_loop_split_free [OF assms(1,2) p2])
  have g: "gc s = s\<lparr>d_x := x3\<rparr>" by (simp add: gc_def Let_def x3_def x2_def x1_def)
  show ?thesis using p3 by (simp add: split_free_def g list_all_iff)
qed

lemma insert_at_wf: "wf s \<Longrightarrow> insert_at s pos v r = Inr (s', p) \<Longrightarrow> wf s'"
  using insert_at_cases [of s pos v r] by auto

lemma remove_at_wf: "wf s \<Longrightarrow> remove_at s pos r = Inr (s', p) \<Longrightarrow> wf s'"
  using remove_at_cases [of s pos r] by auto

subsection \<open>Where the products wrap\<close>

lemma clear_zero_loop_id: "\<forall>c\<in>set x. c \<noteq> [] \<Longrightarrow> clear_zero_loop x i = x"
proof (induction x i rule: clear_zero_loop.induct)
  case (1 x i)
  show ?case
  proof (cases "Suc i < length x")
    case False
    then show ?thesis by (subst clear_zero_loop.simps) simp
  next
    case True
    then have "x ! i \<in> set x" by simp
    then have ne: "length (x ! i) \<noteq> 0" using "1.prems" by auto
    have "clear_zero_loop x i = clear_zero_loop x (i + 1)"
      using True ne by (subst clear_zero_loop.simps) simp
    then show ?thesis using "1.IH"(2) [OF True ne "1.prems"] by simp
  qed
qed

lemma gc_split_loop_id:
  "\<forall>c\<in>set x. \<not> should_split n (int (length c)) \<Longrightarrow> gc_split_loop n x i = x"
proof (induction n x i rule: gc_split_loop.induct)
  case (1 n x i)
  show ?case
  proof (cases "i < length x")
    case False
    then show ?thesis by (subst gc_split_loop.simps) simp
  next
    case True
    then have "x ! i \<in> set x" by simp
    then have ns: "\<not> should_split n (int (length (x ! i)))" using "1.prems" by blast
    have "gc_split_loop n x i = gc_split_loop n x (i + 1)"
      using True ns by (subst gc_split_loop.simps) simp
    then show ?thesis using "1.IH"(2) [OF True ns "1.prems"] by simp
  qed
qed

text \<open>The merge loop never goes back: the chunks before \<open>i\<close> stay as they are.\<close>

lemma gc_merge_loop_prefix: "take i (gc_merge_loop n x i) = take i x"
proof (induction n x i rule: gc_merge_loop.induct)
  case (1 n x i)
  show ?case
  proof (cases "Suc i < length x")
    case False
    then show ?thesis by (subst gc_merge_loop.simps) simp
  next
    case True
    note il = True
    show ?thesis
    proof (cases "should_merge n (int (length (x ! i)) + int (length (x ! (i + 1))))")
      case True
      have e: "gc_merge_loop n x i = gc_merge_loop n (merge_chunk x i) i"
        using il True by (subst gc_merge_loop.simps) simp
      have "take i (merge_chunk x i) = take i x" using il by (simp add: merge_chunk_eq)
      then show ?thesis using "1.IH"(1) [OF il True] unfolding e by simp
    next
      case False
      have e: "gc_merge_loop n x i = gc_merge_loop n x (i + 1)"
        using il False by (subst gc_merge_loop.simps) simp
      have "take i (take (i + 1) (gc_merge_loop n x (i + 1))) = take i (take (i + 1) x)"
        using "1.IH"(2) [OF il False] by simp
      then show ?thesis unfolding e by (simp add: min_def)
    qed
  qed
qed

lemma length_concat_replicate: "length (concat (replicate k c)) = k * length c"
  by (induction k) simp_all

text \<open>
  Beyond chunks of 2896 elements the wrapped product of \<^verbatim>\<open>should_merge\<close> takes over.  In a
  well-formed table of 363 chunks of 2897 elements no chunk and no half of a chunk
  satisfies the split predicate; \<^verbatim>\<open>gc()\<close> computes \<open>5794 * 5794 * 64\<close> for the first pair,
  which wraps to a negative number, merges the pair and leaves a chunk of 5794 elements,
  which does satisfy the split predicate.
\<close>

lemma gc_wrapped_merge:
  "wf \<lparr>d_size = 1051611, d_x = replicate 363 (replicate 2897 (0 :: nat))\<rparr>
   \<and> list_all (\<lambda>c. \<not> split_predicate 1051611 (int (length c))
                 \<and> \<not> split_predicate 1051611 ((int (length c) + 1) div 2))
       (replicate 363 (replicate 2897 (0 :: nat)))
   \<and> \<not> split_free (gc \<lparr>d_size = 1051611, d_x = replicate 363 (replicate 2897 (0 :: nat))\<rparr>)"
proof -
  define c where "c = replicate 2897 (0 :: nat)"
  define x where "x = replicate 363 c"
  let ?n = "1051611 :: int"
  have lc: "length c = 2897" by (simp add: c_def)
  have cne: "c \<noteq> []" using lc by auto
  have lx: "length x = 363" by (simp add: x_def)
  have mem: "\<And>d. d \<in> set x \<Longrightarrow> d = c" by (simp add: x_def)
  have w: "wf \<lparr>d_size = ?n, d_x = x\<rparr>"
    using lx by (auto simp: wf_def x_def length_concat_replicate lc)
  have h: "list_all (\<lambda>c. \<not> split_predicate ?n (int (length c))
                 \<and> \<not> split_predicate ?n ((int (length c) + 1) div 2)) x"
  proof -
    have "\<not> split_predicate ?n (int (length c))
          \<and> \<not> split_predicate ?n ((int (length c) + 1) div 2)"
      by (simp add: lc split_predicate_def)
    then show ?thesis using mem by (auto simp: list_all_iff)
  qed
  have "\<forall>d\<in>set x. d \<noteq> []" using mem cne by blast
  then have "clear_zero_loop x 0 = x" by (rule clear_zero_loop_id)
  then have cz: "clear_zero x = x" by (simp add: clear_zero_def)
  have ns: "\<not> should_split ?n 2897" by (simp add: should_split_def int32_def)
  have "\<forall>d\<in>set x. \<not> should_split ?n (int (length d))" using mem ns lc by auto
  then have sp: "gc_split_loop ?n x 0 = x" by (rule gc_split_loop_id)
  have x0: "x ! 0 = c" "x ! 1 = c" "x ! 2 = c" by (simp_all add: x_def)
  have m5794: "should_merge ?n 5794" by (simp add: should_merge_def int32_def)
  have m8691: "\<not> should_merge ?n 8691" by (simp add: should_merge_def int32_def)
  define y where "y = merge_chunk x 0"
  have y: "y = (c @ c) # drop 2 x"
    using lx x0 by (simp add: y_def merge_chunk_eq numeral_2_eq_2)
  have ly: "length y = 362" using lx by (simp add: y)
  have y0: "y ! 0 = c @ c" by (simp add: y)
  have y1: "y ! 1 = c" using lx x0 by (simp add: y)
  have e1: "gc_merge_loop ?n x 0 = gc_merge_loop ?n y 0"
    using lx x0 m5794 by (subst gc_merge_loop.simps) (simp add: lc y_def)
  have e2: "gc_merge_loop ?n y 0 = gc_merge_loop ?n y 1"
    using ly y0 y1 m8691 by (subst gc_merge_loop.simps) (simp add: lc)
  have "take 1 (gc_merge_loop ?n y 1) = take 1 y" by (rule gc_merge_loop_prefix)
  then have "take 1 (gc_merge_loop ?n x 0) = [c @ c]" using e1 e2 by (simp add: y)
  then have "c @ c \<in> set (take 1 (gc_merge_loop ?n x 0))" by simp
  then have in3: "c @ c \<in> set (gc_merge_loop ?n x 0)" by (rule in_set_takeD)
  have g: "d_x (gc \<lparr>d_size = ?n, d_x = x\<rparr>) = gc_merge_loop ?n x 0"
    by (simp add: gc_def Let_def cz sp)
  have sc: "split_predicate ?n (int (length (c @ c)))" by (simp add: lc split_predicate_def)
  have "\<exists>d\<in>set (gc_merge_loop ?n x 0). split_predicate ?n (int (length d))"
    using in3 sc by (rule bexI [rotated])
  then have "\<not> split_free (gc \<lparr>d_size = ?n, d_x = x\<rparr>)"
    using g by (simp add: split_free_def list_all_iff gc_size)
  then show ?thesis using w h unfolding x_def c_def by blast
qed

subsection \<open>Indexed access\<close>

text \<open>\<^verbatim>\<open>access(pos)\<close> on a reachable container: the element at position \<open>pos\<close> of the
  concatenation of the chunks for \<open>0 \<le> pos < N\<close>, \<open>index_out_of_bound\<close> for every other
  \<open>pos\<close>.  \<^verbatim>\<open>at\<close> and \<^verbatim>\<open>operator[]\<close> agree with it for an index below \<open>2^31\<close>.\<close>

lemma access_logical_order:
  assumes "reachable s"
  shows "(0 \<le> pos \<and> pos < d_size s \<longrightarrow> access s pos = Inr (concat (d_x s) ! nat pos))
       \<and> (pos < 0 \<or> d_size s \<le> pos \<longrightarrow> access s pos = Inl index_out_of_bound)"
  using access_in_range [OF reachable_wf [OF assms], of pos] access_out_of_range [of pos s]
  by simp

lemma deque_at_small: "int n < 2147483648 \<Longrightarrow> deque_at s n = access s (int n)"
  by (simp add: deque_at_def int32_id)

section \<open>The claims\<close>

text \<open>
  C3.  In a reachable container, \<^verbatim>\<open>push_back(v)\<close> then \<^verbatim>\<open>pop_back()\<close> succeed and restore
  the size and the logical sequence; so do \<^verbatim>\<open>push_front(v)\<close> then \<^verbatim>\<open>pop_front()\<close>, and
  \<^verbatim>\<open>insert(it, v)\<close> at a valid position then \<^verbatim>\<open>erase\<close> of the returned iterator, whatever
  the \<^verbatim>\<open>rand()\<close> values.
\<close>

theorem push_pop_round_trip:
  assumes "reachable s"
  shows "(\<exists>s1 s2. push_back s v r1 = Inr s1 \<and> pop_back s1 r2 = Inr s2
            \<and> d_size s2 = d_size s \<and> contents s2 = contents s)
       \<and> (\<exists>s1 s2. push_front s v r1 = Inr s1 \<and> pop_front s1 r2 = Inr s2
            \<and> d_size s2 = d_size s \<and> contents s2 = contents s)
       \<and> (owns it this \<and> 0 \<le> it_pos it \<and> it_pos it \<le> d_size s \<longrightarrow>
            (\<exists>s1 it1 s2 it2. deque_insert this s it v r1 = Inr (s1, it1)
               \<and> erase this s1 it1 r2 = Inr (s2, it2)
               \<and> d_size s2 = d_size s \<and> contents s2 = contents s))"
proof -
  have w: "wf s" using assms by (rule reachable_wf)
  have a: "\<exists>s1 s2. push_back s v r1 = Inr s1 \<and> pop_back s1 r2 = Inr s2
            \<and> d_size s2 = d_size s \<and> contents s2 = contents s"
  proof -
    from push_back_spec [OF w, of v r1] obtain s1 where
      s1: "push_back s v r1 = Inr s1" "wf s1" "contents s1 = contents s @ [v]" by blast
    from pop_back_spec [OF s1(2), of r2] s1(3) obtain s2 where
      s2: "pop_back s1 r2 = Inr s2" "wf s2" "contents s2 = contents s" by auto
    show ?thesis using s1 s2 w by (auto simp: wf_size_contents)
  qed
  have b: "\<exists>s1 s2. push_front s v r1 = Inr s1 \<and> pop_front s1 r2 = Inr s2
            \<and> d_size s2 = d_size s \<and> contents s2 = contents s"
  proof -
    from push_front_spec [OF w, of v r1] obtain s1 where
      s1: "push_front s v r1 = Inr s1" "wf s1" "contents s1 = v # contents s" by blast
    from pop_front_spec [OF s1(2), of r2] s1(3) obtain s2 where
      s2: "pop_front s1 r2 = Inr s2" "wf s2" "contents s2 = contents s" by auto
    show ?thesis using s1 s2 w by (auto simp: wf_size_contents)
  qed
  have c: "\<exists>s1 it1 s2 it2. deque_insert this s it v r1 = Inr (s1, it1)
               \<and> erase this s1 it1 r2 = Inr (s2, it2)
               \<and> d_size s2 = d_size s \<and> contents s2 = contents s"
    if o: "owns it this" and p: "0 \<le> it_pos it" "it_pos it \<le> d_size s"
  proof -
    let ?p = "it_pos it"
    from insert_at_spec [OF w p, of v r1] obtain s1 where
      s1: "insert_at s ?p v r1 = Inr (s1, ?p)" "wf s1"
        "contents s1 = take (nat ?p) (contents s) @ v # drop (nat ?p) (contents s)" by blast
    have l: "nat ?p \<le> length (contents s)" using p wf_size_contents [OF w] by linarith
    have "?p < d_size s1" using s1(2,3) p l by (simp add: wf_size_contents)
    from remove_at_spec [OF s1(2) p(1) this, of r2] obtain s2 where
      s2: "remove_at s1 ?p r2 = Inr (s2, ?p)" "wf s2"
        "contents s2 = take (nat ?p) (contents s1) @ drop (Suc (nat ?p)) (contents s1)" by blast
    have "contents s2 = contents s" using s2(3) s1(3) l by simp
    then show ?thesis using o s1 s2 w
      by (auto simp: deque_insert_def erase_def owns_def wf_size_contents)
  qed
  show ?thesis using a b c by blast
qed

theorem push_pop_round_trip_witness:
  "reachable \<lparr>d_size = 1, d_x = [[5 :: nat]]\<rparr>
   \<and> owns (end_it 3 \<lparr>d_size = 1, d_x = [[5 :: nat]]\<rparr>) 3
   \<and> (\<exists>s1 it1 s2 it2.
         deque_insert 3 \<lparr>d_size = 1, d_x = [[5 :: nat]]\<rparr> (end_it 3 \<lparr>d_size = 1, d_x = [[5 :: nat]]\<rparr>) 8 0
           = Inr (s1, it1)
       \<and> erase 3 s1 it1 20000 = Inr (s2, it2) \<and> d_size s2 = 1 \<and> contents s2 = [5])"
proof -
  have "run_calls 3 [Push_back 5 20000] deque_new = Inr \<lparr>d_size = 1, d_x = [[5 :: nat]]\<rparr>"
    by code_simp
  then have r: "reachable \<lparr>d_size = 1, d_x = [[5 :: nat]]\<rparr>"
    unfolding reachable_def by blast
  have o: "owns (end_it 3 \<lparr>d_size = 1, d_x = [[5 :: nat]]\<rparr>) 3"
    by (simp add: owns_def end_it_def)
  show ?thesis
    using r o push_pop_round_trip [OF r, of 8 0 20000 "end_it 3 \<lparr>d_size = 1, d_x = [[5 :: nat]]\<rparr>" 3]
    by (simp add: end_it_def contents_def)
qed

text \<open>
  C4.  On an empty container \<^verbatim>\<open>front()\<close>, \<^verbatim>\<open>back()\<close>, \<^verbatim>\<open>pop_front()\<close> and \<^verbatim>\<open>pop_back()\<close>
  should raise \<open>container_is_empty\<close>, as the comments above \<^verbatim>\<open>front\<close> and \<^verbatim>\<open>back\<close> say.
  All four go through \<^verbatim>\<open>throw_if_out_of_bound\<close> and raise \<open>index_out_of_bound\<close>.
\<close>

theorem empty_container_raises_index_out_of_bound:
  "deque_front (deque_new :: 'a deque) = Inl index_out_of_bound
   \<and> deque_back (deque_new :: 'a deque) = Inl index_out_of_bound
   \<and> pop_front (deque_new :: 'a deque) r = Inl index_out_of_bound
   \<and> pop_back (deque_new :: 'a deque) r = Inl index_out_of_bound"
  by (simp add: deque_front_def deque_back_def pop_front_def pop_back_def access_def
      remove_at_def throw_if_out_of_bound_def deque_new_eq)

text \<open>
  C7.  \<^verbatim>\<open>erase(it)\<close> raises \<open>invalid_iterator\<close> when \<open>it\<close> is not owned by the container.
  With an owned iterator whose index is outside \<open>[0, N)\<close>, the end iterator included, it
  raises \<open>index_out_of_bound\<close>.
\<close>

theorem erase_errors:
  "(\<not> owns it this \<longrightarrow> erase this s it r = Inl invalid_iterator)
   \<and> (owns it this \<and> (it_pos it < 0 \<or> d_size s \<le> it_pos it) \<longrightarrow>
        erase this s it r = Inl index_out_of_bound)"
  using remove_at_out_of_range [of "it_pos it" s r] by (auto simp: erase_def)

theorem erase_errors_witness:
  "\<not> owns default_iterator 0
   \<and> erase 0 (deque_new :: nat deque) default_iterator 20000 = Inl invalid_iterator
   \<and> owns (end_it 0 (deque_new :: nat deque)) 0
   \<and> erase 0 (deque_new :: nat deque) (end_it 0 deque_new) 20000 = Inl index_out_of_bound"
  using erase_errors [of default_iterator 0 "deque_new :: nat deque" 20000]
    erase_errors [of "end_it 0 (deque_new :: nat deque)" 0 "deque_new :: nat deque" 20000]
  by (simp add: owns_def default_iterator_def end_it_def deque_new_eq)

theorem erase_end_iterator_counterexample:
  "owns (end_it 0 (deque_new :: nat deque)) 0
   \<and> it_pos (end_it 0 (deque_new :: nat deque)) = d_size (deque_new :: nat deque)
   \<and> erase 0 (deque_new :: nat deque) (end_it 0 deque_new) 20000 \<noteq> Inl invalid_iterator"
  by (simp add: owns_def end_it_def erase_def remove_at_def throw_if_out_of_bound_def
      deque_new_eq)

text \<open>
  C8.  Dereferencing an iterator whose container pointer is null should raise
  \<open>invalid_iterator\<close>, as \<^verbatim>\<open>valid\<close> does for the iterator motions.  \<^verbatim>\<open>operator*\<close> calls
  \<^verbatim>\<open>q->access(pos)\<close> without that test: on a default-constructed iterator it goes through
  the null pointer and raises nothing.
\<close>

theorem dereference_default_iterator:
  "operator_star h default_iterator = Inl undefined_behaviour"
  by (simp add: operator_star_def default_iterator_def)

text \<open>
  C9.  From a fresh container, \<^verbatim>\<open>push_front(10)\<close>, \<^verbatim>\<open>push_back(20)\<close>, \<^verbatim>\<open>push_front(30)\<close>,
  \<^verbatim>\<open>push_back(40)\<close> all succeed and give size 4 and the sequence 30, 10, 20, 40, whatever
  the four \<^verbatim>\<open>rand()\<close> values.
\<close>

theorem deque_alternation:
  "\<exists>s. run_calls this [Push_front 10 r1, Push_back 20 r2, Push_front 30 r3, Push_back 40 r4]
          deque_new = Inr s
       \<and> d_size s = 4 \<and> contents s = [30, 10, 20, 40 :: int]
       \<and> map (access s) [0, 1, 2, 3] = [Inr 30, Inr 10, Inr 20, Inr 40]"
proof -
  from push_front_spec [OF wf_deque_new, of 10 r1] obtain s1 :: "int deque" where
    s1: "push_front deque_new 10 r1 = Inr s1" "wf s1" "contents s1 = [10]"
    by (auto simp: contents_def deque_new_eq)
  from push_back_spec [OF s1(2), of 20 r2] s1(3) obtain s2 where
    s2: "push_back s1 20 r2 = Inr s2" "wf s2" "contents s2 = [10, 20]" by auto
  from push_front_spec [OF s2(2), of 30 r3] s2(3) obtain s3 where
    s3: "push_front s2 30 r3 = Inr s3" "wf s3" "contents s3 = [30, 10, 20]" by auto
  from push_back_spec [OF s3(2), of 40 r4] s3(3) obtain s4 where
    s4: "push_back s3 40 r4 = Inr s4" "wf s4" "contents s4 = [30, 10, 20, 40]" by auto
  have n: "d_size s4 = 4" using s4(2,3) by (simp add: wf_size_contents)
  have c: "concat (d_x s4) = [30, 10, 20, 40]" using s4(3) by (simp add: contents_def)
  have "map (access s4) [0, 1, 2, 3] = [Inr 30, Inr 10, Inr 20, Inr 40]"
    using access_in_range [OF s4(2), of 0] access_in_range [OF s4(2), of 1]
      access_in_range [OF s4(2), of 2] access_in_range [OF s4(2), of 3] n c
    by simp
  then show ?thesis using s1(1) s2(1) s3(1) s4(1,3) n by simp
qed






text \<open>
  C6.  In every reachable state the chunk table holds at least one chunk, and a fresh or
  cleared container has exactly one chunk, which is empty.  Empty chunks are not limited
  further: \<^verbatim>\<open>remove_at\<close> leaves an emptied chunk in the table unless it is the last one or
  the merge test fires, and the locator steps over such chunks.
\<close>

theorem chunk_table_nonempty:
  "(reachable s \<longrightarrow> d_x s \<noteq> [])
   \<and> d_x (deque_new :: 'a deque) = [[]]
   \<and> d_x (clear s) = [[]]"
  using reachable_wf [of s] by (auto simp: wf_def deque_new_eq clear_eq)

theorem chunk_table_nonempty_witness:
  "reachable \<lparr>d_size = 2, d_x = [[7 :: nat, 9]]\<rparr>
   \<and> d_x \<lparr>d_size = 2, d_x = [[7 :: nat, 9]]\<rparr> \<noteq> []"
proof -
  have "run_calls 0 [Push_back 7 20000, Push_back 9 20000] deque_new
          = Inr \<lparr>d_size = 2, d_x = [[7 :: nat, 9]]\<rparr>"
    by code_simp
  then have r: "reachable \<lparr>d_size = 2, d_x = [[7 :: nat, 9]]\<rparr>"
    unfolding reachable_def by blast
  show ?thesis using r chunk_table_nonempty [of "\<lparr>d_size = 2, d_x = [[7 :: nat, 9]]\<rparr>"]
    by simp
qed

theorem empty_chunks_counterexample:
  "reachable \<lparr>d_size = 17, d_x = [replicate 8 (0 :: nat), [], [], replicate 9 0]\<rparr>
   \<and> length (filter (\<lambda>c. c = []) (d_x \<lparr>d_size = 17, d_x = [replicate 8 (0 :: nat), [], [], replicate 9 0]\<rparr>)) = 2
   \<and> length (d_x \<lparr>d_size = 17, d_x = [replicate 8 (0 :: nat), [], [], replicate 9 0]\<rparr>) = 4"
proof -
  have "run_calls 0 (replicate 33 (Push_back 0 20000)
            @ replicate 16 (Erase \<lparr>it_q = Some 0, it_pos = 8\<rparr> 20000)) deque_new
          = Inr \<lparr>d_size = 17, d_x = [replicate 8 (0 :: nat), [], [], replicate 9 0]\<rparr>"
    by code_simp
  then have "reachable \<lparr>d_size = 17, d_x = [replicate 8 (0 :: nat), [], [], replicate 9 0]\<rparr>"
    unfolding reachable_def by blast
  then show ?thesis by simp
qed

text \<open>
  C1.  \<^verbatim>\<open>access(pos)\<close> does return the element at position \<open>pos\<close> of the concatenation of
  the chunks and does raise \<open>index_out_of_bound\<close> outside \<open>[0, N)\<close> (lemma
  \<open>access_logical_order\<close>).  \<^verbatim>\<open>at(pos)\<close> and \<^verbatim>\<open>operator[](pos)\<close> should do the same: the
  comment above \<^verbatim>\<open>at\<close> says "throw index_out_of_bound if out of bound", and the sibling
  \<^verbatim>\<open>deque3.cpp\<close> compares the \<^verbatim>\<open>size_t\<close> index with \<^verbatim>\<open>size()\<close> before any conversion.  Here
  the \<^verbatim>\<open>size_t\<close> index is narrowed to \<^verbatim>\<open>int\<close> on the way into \<^verbatim>\<open>access\<close>, before the bounds
  check: on the container holding 7, 9 the index 4294967296 becomes 0 and \<^verbatim>\<open>at\<close> returns 7.
\<close>

theorem at_index_narrowed:
  "reachable \<lparr>d_size = 2, d_x = [[7 :: nat, 9]]\<rparr>
   \<and> deque_at \<lparr>d_size = 2, d_x = [[7 :: nat, 9]]\<rparr> 4294967296 = Inr 7"
proof -
  have "run_calls 0 [Push_back 7 20000, Push_back 9 20000] deque_new
          = Inr \<lparr>d_size = 2, d_x = [[7 :: nat, 9]]\<rparr>"
    by code_simp
  then have r: "reachable \<lparr>d_size = 2, d_x = [[7 :: nat, 9]]\<rparr>"
    unfolding reachable_def by blast
  have n: "int32 (int 4294967296) = 0" by (simp add: int32_def)
  have "access \<lparr>d_size = 2, d_x = [[7 :: nat, 9]]\<rparr> 0 = Inr 7" by code_simp
  then have a: "deque_at \<lparr>d_size = 2, d_x = [[7 :: nat, 9]]\<rparr> 4294967296 = Inr 7"
    using n by (simp add: deque_at_def)
  show ?thesis by (intro conjI r a)
qed

text \<open>
  C5.  When \<^verbatim>\<open>insert_at\<close> or \<^verbatim>\<open>remove_at\<close> has returned normally on a reachable container,
  the next \<^verbatim>\<open>gc()\<close> pass leaves no pair of adjacent chunks that satisfies the merge
  predicate.  It leaves no chunk that satisfies the split predicate provided that no chunk
  is so long that its larger half still satisfies it (the pass splits a chunk once, at its
  midpoint, and steps over both halves), and that the table holds fewer than \<open>2^28\<close>
  elements in chunks of at most 2896, where the 32-bit products of \<^verbatim>\<open>should_split\<close> and
  \<^verbatim>\<open>should_merge\<close> cannot wrap; lemma \<open>gc_wrapped_merge\<close> shows the pass unbalancing a
  table of chunks of 2897.
\<close>

theorem gc_after_mutator_balanced:
  assumes "reachable s"
    and "insert_at s pos v r = Inr (s', p) \<or> remove_at s pos r = Inr (s', p)"
  shows "merge_free (gc s')
       \<and> (d_size s' < 268435456
            \<and> (\<forall>c\<in>set (d_x s'). length c \<le> 2896
                  \<and> \<not> split_predicate (d_size s') ((int (length c) + 1) div 2))
          \<longrightarrow> split_free (gc s'))"
proof -
  have w: "wf s" using assms(1) by (rule reachable_wf)
  from assms(2) have "wf s'"
  proof
    assume "insert_at s pos v r = Inr (s', p)"
    with w show ?thesis by (rule insert_at_wf)
  next
    assume "remove_at s pos r = Inr (s', p)"
    with w show ?thesis by (rule remove_at_wf)
  qed
  then have n: "0 \<le> d_size s'" by (rule wf_size_nonneg)
  have a: "merge_free (gc s')" by (rule gc_merge_free)
  have b: "split_free (gc s')"
    if "d_size s' < 268435456
        \<and> (\<forall>c\<in>set (d_x s'). length c \<le> 2896
              \<and> \<not> split_predicate (d_size s') ((int (length c) + 1) div 2))"
    using n that [THEN conjunct1] that [THEN conjunct2] by (rule gc_split_free)
  show ?thesis using a b by (intro conjI impI)
qed

theorem gc_after_mutator_balanced_witness:
  "reachable \<lparr>d_size = 33, d_x = [replicate 31 (0 :: nat), [0, 0]]\<rparr>
   \<and> remove_at \<lparr>d_size = 33, d_x = [replicate 31 (0 :: nat), [0, 0]]\<rparr> 32 20000
       = Inr (\<lparr>d_size = 32, d_x = [replicate 31 0, [0]]\<rparr>, 32)
   \<and> list_all (\<lambda>c. length c \<le> 2896 \<and> \<not> split_predicate 32 ((int (length c) + 1) div 2))
         [replicate 31 (0 :: nat), [0]]
   \<and> d_x (gc \<lparr>d_size = 32, d_x = [replicate 31 (0 :: nat), [0]]\<rparr>)
       = [replicate 15 0, replicate 16 0, [0]]
   \<and> merge_free (gc \<lparr>d_size = 32, d_x = [replicate 31 (0 :: nat), [0]]\<rparr>)
   \<and> split_free (gc \<lparr>d_size = 32, d_x = [replicate 31 (0 :: nat), [0]]\<rparr>)"
proof -
  have "run_calls 0 (replicate 98 (Push_back 0 20000) @ replicate 23 (Push_front 0 20000)
            @ replicate 88 (Pop_back 20000)) deque_new
          = Inr \<lparr>d_size = 33, d_x = [replicate 31 (0 :: nat), [0, 0]]\<rparr>"
    by code_simp
  then have r: "reachable \<lparr>d_size = 33, d_x = [replicate 31 (0 :: nat), [0, 0]]\<rparr>"
    unfolding reachable_def by blast
  have m: "remove_at \<lparr>d_size = 33, d_x = [replicate 31 (0 :: nat), [0, 0]]\<rparr> 32 20000
       = Inr (\<lparr>d_size = 32, d_x = [replicate 31 0, [0]]\<rparr>, 32)"
    by code_simp
  have l: "list_all (\<lambda>c. length c \<le> 2896 \<and> \<not> split_predicate 32 ((int (length c) + 1) div 2))
         [replicate 31 (0 :: nat), [0]]"
    by (simp add: split_predicate_def)
  have g: "d_x (gc \<lparr>d_size = 32, d_x = [replicate 31 (0 :: nat), [0]]\<rparr>)
       = [replicate 15 0, replicate 16 0, [0]]"
    by code_simp
  have h: "d_size \<lparr>d_size = 32, d_x = [replicate 31 (0 :: nat), [0]]\<rparr> < 268435456
       \<and> (\<forall>c\<in>set (d_x \<lparr>d_size = 32, d_x = [replicate 31 (0 :: nat), [0]]\<rparr>).
             length c \<le> 2896
             \<and> \<not> split_predicate (d_size \<lparr>d_size = 32, d_x = [replicate 31 (0 :: nat), [0]]\<rparr>)
                   ((int (length c) + 1) div 2))"
    by (simp add: split_predicate_def)
  note t = gc_after_mutator_balanced [OF r disjI2 [OF m]]
  have mf: "merge_free (gc \<lparr>d_size = 32, d_x = [replicate 31 (0 :: nat), [0]]\<rparr>)"
    using t by (rule conjunct1)
  have sf: "split_free (gc \<lparr>d_size = 32, d_x = [replicate 31 (0 :: nat), [0]]\<rparr>)"
    using t [THEN conjunct2] h by (rule mp)
  show ?thesis by (intro conjI r m l g mf sf)
qed

theorem gc_after_mutator_counterexample:
  "reachable \<lparr>d_size = 32, d_x = [replicate 31 (0 :: nat), [0]]\<rparr>
   \<and> remove_at \<lparr>d_size = 32, d_x = [replicate 31 (0 :: nat), [0]]\<rparr> 31 20000
       = Inr (\<lparr>d_size = 31, d_x = [replicate 31 0]\<rparr>, 31)
   \<and> \<not> balanced (gc \<lparr>d_size = 31, d_x = [replicate 31 (0 :: nat)]\<rparr>)"
proof -
  have "run_calls 0 (replicate 98 (Push_back 0 20000) @ replicate 23 (Push_front 0 20000)
            @ replicate 89 (Pop_back 20000)) deque_new
          = Inr \<lparr>d_size = 32, d_x = [replicate 31 (0 :: nat), [0]]\<rparr>"
    by code_simp
  then have r: "reachable \<lparr>d_size = 32, d_x = [replicate 31 (0 :: nat), [0]]\<rparr>"
    unfolding reachable_def by blast
  have m: "remove_at \<lparr>d_size = 32, d_x = [replicate 31 (0 :: nat), [0]]\<rparr> 31 20000
       = Inr (\<lparr>d_size = 31, d_x = [replicate 31 0]\<rparr>, 31)"
    by code_simp
  have g: "\<not> balanced (gc \<lparr>d_size = 31, d_x = [replicate 31 (0 :: nat)]\<rparr>)"
    by code_simp
  show ?thesis by (intro conjI r m g)
qed

end
